theory Spec2Isabelle
  imports Complex_Main "HOL-Library.Log_Nat" "HOL-Library.List_Lexorder" "HOL-Library.Char_ord"
begin

section \<open>JavaScript numbers\<close>

text \<open>
  The arbitrage calculator works on JavaScript numbers, the IEEE 754 double-precision
  numbers.  A number is a finite value, \<open>Infinity\<close>, \<open>-Infinity\<close> or \<open>NaN\<close>.  A finite
  double is held as the real number it denotes; every arithmetic operation computes the
  exact result and rounds it to the nearest double, to the even one of two nearest,
  and to \<open>Infinity\<close> from \<open>2^1024\<close> on.  The sign of zero is not modelled: a zero is
  \<open>+0\<close>, which is the only zero the calculator divides by (its best prices start at the
  literal \<open>0\<close> and are only replaced by greater values, and its totals are sums of
  values that are not negative).
\<close>

datatype jsnum = Num real | PosInf | NegInf | NaN

text \<open>The power \<open>2^k\<close> for an integer \<open>k\<close>.\<close>

definition pow2 :: "int \<Rightarrow> real" where
  "pow2 k = (if 0 \<le> k then 2 ^ nat k else 1 / 2 ^ nat (- k))"

text \<open>
  The binary exponent of a positive real: the \<open>e\<close> with \<open>2^e \<le> x < 2^(e + 1)\<close>, from the
  number of binary digits of the integer part of \<open>x\<close>, or of \<open>1 / x\<close> when \<open>x < 1\<close>.
\<close>

definition expo :: "real \<Rightarrow> int" where
  "expo x = (if 1 \<le> x then bitlen \<lfloor>x\<rfloor> - 1 else - bitlen (\<lceil>1 / x\<rceil> - 1))"

text \<open>The nearest integer, the even one of two nearest.\<close>

definition round_even :: "real \<Rightarrow> int" where
  "round_even r =
     (let n = \<lfloor>r\<rfloor>; f = r - of_int n
      in if f < 1 / 2 then n else if 1 / 2 < f then n + 1 else if even n then n else n + 1)"

text \<open>
  The doubles around a positive real \<open>x\<close> are the multiples of \<open>2^q\<close>, where
  \<open>q = e - 52\<close> for the exponent \<open>e\<close> of \<open>x\<close> (a significand of 53 bits), and \<open>q = -1074\<close>
  for the subnormal numbers, below \<open>2^(-1022)\<close>.  The nearest of them is the value that
  round-to-nearest, ties-to-even gives, when it is below \<open>2^1024\<close>.
\<close>

definition quantum :: "real \<Rightarrow> int" where
  "quantum x = max (expo x) (- 1022) - 52"

definition nearest :: "real \<Rightarrow> real" where
  "nearest x = of_int (round_even (x / pow2 (quantum x))) * pow2 (quantum x)"

text \<open>
  The double that a real rounds to: the result of an arithmetic operation with that
  exact value, and the number that a decimal literal or \<open>parseFloat\<close> of a decimal
  string denotes.
\<close>

definition to_double :: "real \<Rightarrow> jsnum" where
  "to_double x =
     (if x = 0 then Num 0
      else if pow2 1024 \<le> nearest \<bar>x\<bar> then (if 0 < x then PosInf else NegInf)
      else Num (sgn x * nearest \<bar>x\<bar>))"

text \<open>A real that is a double: rounding leaves it as it is.\<close>

definition isDouble :: "real \<Rightarrow> bool" where
  "isDouble x \<longleftrightarrow> to_double x = Num x"

text \<open>The relational operators \<open>a > b\<close> and \<open>a >= b\<close>: false whenever an operand is \<open>NaN\<close>.\<close>

fun js_gt :: "jsnum \<Rightarrow> jsnum \<Rightarrow> bool" where
  "js_gt (Num a) (Num b) = (b < a)"
| "js_gt PosInf (Num b) = True"
| "js_gt PosInf NegInf = True"
| "js_gt (Num a) NegInf = True"
| "js_gt _ _ = False"

fun js_ge :: "jsnum \<Rightarrow> jsnum \<Rightarrow> bool" where
  "js_ge (Num a) (Num b) = (b \<le> a)"
| "js_ge NaN _ = False"
| "js_ge _ NaN = False"
| "js_ge PosInf _ = True"
| "js_ge _ NegInf = True"
| "js_ge _ _ = False"

fun js_neg :: "jsnum \<Rightarrow> jsnum" where
  "js_neg (Num a) = Num (- a)"
| "js_neg PosInf = NegInf"
| "js_neg NegInf = PosInf"
| "js_neg NaN = NaN"

text \<open>The arithmetic operators \<open>a + b\<close>, \<open>a - b\<close>, \<open>a * b\<close> and \<open>a / b\<close>.\<close>

fun js_add :: "jsnum \<Rightarrow> jsnum \<Rightarrow> jsnum" where
  "js_add (Num a) (Num b) = to_double (a + b)"
| "js_add NaN _ = NaN"
| "js_add _ NaN = NaN"
| "js_add PosInf NegInf = NaN"
| "js_add NegInf PosInf = NaN"
| "js_add PosInf _ = PosInf"
| "js_add _ PosInf = PosInf"
| "js_add NegInf _ = NegInf"
| "js_add _ NegInf = NegInf"

definition js_sub :: "jsnum \<Rightarrow> jsnum \<Rightarrow> jsnum" where
  "js_sub a b = js_add a (js_neg b)"

fun js_mul :: "jsnum \<Rightarrow> jsnum \<Rightarrow> jsnum" where
  "js_mul (Num a) (Num b) = to_double (a * b)"
| "js_mul NaN _ = NaN"
| "js_mul _ NaN = NaN"
| "js_mul PosInf (Num b) = (if 0 < b then PosInf else if b < 0 then NegInf else NaN)"
| "js_mul NegInf (Num b) = (if 0 < b then NegInf else if b < 0 then PosInf else NaN)"
| "js_mul (Num a) PosInf = (if 0 < a then PosInf else if a < 0 then NegInf else NaN)"
| "js_mul (Num a) NegInf = (if 0 < a then NegInf else if a < 0 then PosInf else NaN)"
| "js_mul PosInf PosInf = PosInf"
| "js_mul NegInf NegInf = PosInf"
| "js_mul PosInf NegInf = NegInf"
| "js_mul NegInf PosInf = NegInf"

fun js_div :: "jsnum \<Rightarrow> jsnum \<Rightarrow> jsnum" where
  "js_div (Num a) (Num b) =
     (if b \<noteq> 0 then to_double (a / b)
      else if 0 < a then PosInf else if a < 0 then NegInf else NaN)"
| "js_div NaN _ = NaN"
| "js_div _ NaN = NaN"
| "js_div (Num a) PosInf = Num 0"
| "js_div (Num a) NegInf = Num 0"
| "js_div PosInf (Num b) = (if 0 \<le> b then PosInf else NegInf)"
| "js_div NegInf (Num b) = (if 0 \<le> b then NegInf else PosInf)"
| "js_div _ _ = NaN"

text \<open>
  \<open>x.toFixed(2)\<close> on a non-negative finite \<open>x\<close> below \<open>10^21\<close> prints \<open>n / 100\<close> for the
  integer \<open>n\<close> nearest to \<open>x * 100\<close>, the larger one on a tie, where \<open>x\<close> is the exact value
  of the double; a negative \<open>x\<close> is printed as the minus sign followed by the digits of
  \<open>-x\<close>.  So it rounds the exact value half away from zero.
\<close>

definition round2 :: "real \<Rightarrow> real" where
  "round2 x = sgn x * of_int \<lfloor>\<bar>x\<bar> * 100 + 1 / 2\<rfloor> / 100"

text \<open>
  \<open>parseFloat(x.toFixed(2))\<close>: \<open>parseFloat\<close> reads the printed decimal as the nearest
  double.  From \<open>10^21\<close> on, \<open>toFixed\<close> prints the number as \<open>toString\<close> does, and
  \<open>Infinity\<close>, \<open>-Infinity\<close> and \<open>NaN\<close> are printed by name; \<open>parseFloat\<close> reads each of
  those back as the same number.
\<close>

fun toFixed2 :: "jsnum \<Rightarrow> jsnum" where
  "toFixed2 (Num x) = (if \<bar>x\<bar> < 10 ^ 21 then to_double (round2 x) else Num x)"
| "toFixed2 n = n"

section \<open>The arbitrage calculator\<close>

text \<open>
  One row of odds: the fields of the odds objects that the calculator reads.  The two
  side prices are numbers (possibly \<open>NaN\<close>, as \<open>parseFloat\<close> may return);
  \<open>draw_odds\<close> is a number or \<open>null\<close> (\<open>None\<close>).
\<close>

record quote =
  team1 :: string
  team2 :: string
  bookmaker :: string
  odds1 :: jsnum
  odds2 :: jsnum
  draw_odds :: "jsnum option"

text \<open>
  The running best of one outcome, \<open>{ odds, bookmaker }\<close>; the bookmaker is \<open>null\<close>
  until a price is selected.
\<close>

record best =
  best_odds :: jsnum
  best_bookmaker :: "string option"

text \<open>One leg of the result, \<open>{ outcome, bookmaker, odds, stake_pct }\<close>.\<close>

record bet =
  outcome :: string
  bet_bookmaker :: "string option"
  bet_odds :: jsnum
  stake_pct :: jsnum

text \<open>The result object, \<open>{ exists: true, profit_percentage, bets }\<close>.\<close>

record opportunity =
  exists_flag :: bool
  profit_percentage :: jsnum
  bets :: "bet list"

text \<open>
  Reading \<open>odds[0].team1\<close> on an empty array raises a \<open>TypeError\<close>; a result is
  \<open>Inl\<close> of the error, \<open>Inr None\<close> for \<open>null\<close> and \<open>Inr (Some opp)\<close> for an object.
\<close>

datatype js_error = TypeError

definition noBest :: best where
  "noBest = \<lparr>best_odds = Num 0, best_bookmaker = None\<rparr>"

text \<open>
  One update of a running best \<open>b\<close> by the row \<open>odd\<close> (here \<open>od\<close>), for the price field \<open>f\<close>:
  \<open>if (odd.f > b.odds) b = { odds: odd.f, bookmaker: odd.bookmaker }\<close>
\<close>

definition better :: "(quote \<Rightarrow> jsnum) \<Rightarrow> best \<Rightarrow> quote \<Rightarrow> best" where
  "better f b od =
     (if js_gt (f od) (best_odds b)
      then \<lparr>best_odds = f od, best_bookmaker = Some (bookmaker od)\<rparr> else b)"

text \<open>Truthiness of a value that is a number or \<open>null\<close>.\<close>

fun truthy :: "jsnum option \<Rightarrow> bool" where
  "truthy None = False"
| "truthy (Some (Num x)) = (x \<noteq> 0)"
| "truthy (Some NaN) = False"
| "truthy (Some _) = True"

text \<open>\<open>d && d > y\<close>, for \<open>d\<close> a number or \<open>null\<close>.\<close>

fun truthy_gt :: "jsnum option \<Rightarrow> jsnum \<Rightarrow> bool" where
  "truthy_gt None y = False"
| "truthy_gt (Some d) y = (truthy (Some d) \<and> js_gt d y)"

text \<open>
  \<open>if (odd.draw_odds && odd.draw_odds > b.odds) b = { odds: odd.draw_odds, ... }\<close>
\<close>

definition betterDraw :: "best \<Rightarrow> quote \<Rightarrow> best" where
  "betterDraw b od =
     (case draw_odds od of
        None \<Rightarrow> b
      | Some d \<Rightarrow>
          if truthy_gt (Some d) (best_odds b)
          then \<lparr>best_odds = d, best_bookmaker = Some (bookmaker od)\<rparr> else b)"

text \<open>The loop of \<open>calculate2WayArbitrage\<close> over the rows, on both running bests.\<close>

definition bestOdds2Way :: "quote list \<Rightarrow> best \<times> best" where
  "bestOdds2Way odds =
     foldl (\<lambda>(bestOdds1, bestOdds2) od. (better odds1 bestOdds1 od, better odds2 bestOdds2 od))
       (noBest, noBest) odds"

text \<open>The loop of \<open>calculate3WayArbitrage\<close>.\<close>

definition bestOdds3Way :: "quote list \<Rightarrow> best \<times> best \<times> best" where
  "bestOdds3Way odds =
     foldl (\<lambda>(bestOdds1, bestOdds2, bestDraw) od.
              (better odds1 bestOdds1 od, better odds2 bestOdds2 od, betterDraw bestDraw od))
       (noBest, noBest, noBest) odds"

definition calculate2WayArbitrage :: "quote list \<Rightarrow> js_error + opportunity option" where
  "calculate2WayArbitrage odds =
     (let (bestOdds1, bestOdds2) = bestOdds2Way odds;
          impliedProb1 = js_div (Num 1) (best_odds bestOdds1);
          impliedProb2 = js_div (Num 1) (best_odds bestOdds2);
          totalImpliedProb = js_add impliedProb1 impliedProb2
      in if js_ge totalImpliedProb (Num 1) then Inr None
         else
           let profitPercentage =
                 js_mul (js_sub (js_div (Num 1) totalImpliedProb) (Num 1)) (Num 100);
               stake1Pct = js_mul (js_div impliedProb1 totalImpliedProb) (Num 100);
               stake2Pct = js_mul (js_div impliedProb2 totalImpliedProb) (Num 100)
           in case odds of
                [] \<Rightarrow> Inl TypeError
              | odds0 # _ \<Rightarrow>
                  Inr (Some \<lparr>exists_flag = True,
                    profit_percentage = toFixed2 profitPercentage,
                    bets =
                      [\<lparr>outcome = team1 odds0, bet_bookmaker = best_bookmaker bestOdds1,
                        bet_odds = best_odds bestOdds1, stake_pct = toFixed2 stake1Pct\<rparr>,
                       \<lparr>outcome = team2 odds0, bet_bookmaker = best_bookmaker bestOdds2,
                        bet_odds = best_odds bestOdds2, stake_pct = toFixed2 stake2Pct\<rparr>]\<rparr>))"

definition calculate3WayArbitrage :: "quote list \<Rightarrow> js_error + opportunity option" where
  "calculate3WayArbitrage odds =
     (let (bestOdds1, bestOdds2, bestDraw) = bestOdds3Way odds
      in if best_odds bestOdds1 = Num 0 \<or> best_odds bestOdds2 = Num 0
            \<or> best_odds bestDraw = Num 0 then Inr None
         else
           let impliedProb1 = js_div (Num 1) (best_odds bestOdds1);
               impliedProb2 = js_div (Num 1) (best_odds bestOdds2);
               impliedProbDraw = js_div (Num 1) (best_odds bestDraw);
               totalImpliedProb = js_add (js_add impliedProb1 impliedProb2) impliedProbDraw
           in if js_ge totalImpliedProb (Num 1) then Inr None
              else
                let profitPercentage =
                      js_mul (js_sub (js_div (Num 1) totalImpliedProb) (Num 1)) (Num 100);
                    stake1Pct = js_mul (js_div impliedProb1 totalImpliedProb) (Num 100);
                    stake2Pct = js_mul (js_div impliedProb2 totalImpliedProb) (Num 100);
                    stakeDrawPct = js_mul (js_div impliedProbDraw totalImpliedProb) (Num 100)
                in case odds of
                     [] \<Rightarrow> Inl TypeError
                   | odds0 # _ \<Rightarrow>
                       Inr (Some \<lparr>exists_flag = True,
                         profit_percentage = toFixed2 profitPercentage,
                         bets =
                           [\<lparr>outcome = team1 odds0, bet_bookmaker = best_bookmaker bestOdds1,
                             bet_odds = best_odds bestOdds1, stake_pct = toFixed2 stake1Pct\<rparr>,
                            \<lparr>outcome = ''Draw'', bet_bookmaker = best_bookmaker bestDraw,
                             bet_odds = best_odds bestDraw, stake_pct = toFixed2 stakeDrawPct\<rparr>,
                            \<lparr>outcome = team2 odds0, bet_bookmaker = best_bookmaker bestOdds2,
                             bet_odds = best_odds bestOdds2, stake_pct = toFixed2 stake2Pct\<rparr>]\<rparr>))"

text \<open>\<open>odds.some(o => o.draw_odds && o.draw_odds > 0)\<close>\<close>

definition hasDrawOdds :: "quote list \<Rightarrow> bool" where
  "hasDrawOdds odds = list_ex (\<lambda>o'. truthy_gt (draw_odds o') (Num 0)) odds"

text \<open>The array is always present here, so \<open>!odds\<close> is false.\<close>

definition calculateArbitrage :: "quote list \<Rightarrow> js_error + opportunity option" where
  "calculateArbitrage odds =
     (if length odds < 2 then Inr None
      else if hasDrawOdds odds then calculate3WayArbitrage odds
      else calculate2WayArbitrage odds)"

text \<open>
  The local \<open>totalImpliedProb\<close> of \<open>calculate2WayArbitrage\<close> and of
  \<open>calculate3WayArbitrage\<close>, that of the calculator which \<open>calculateArbitrage\<close> chooses,
  and the local \<open>profitPercentage\<close>, the profit before rounding.
\<close>

definition totalImpliedProb2Way :: "quote list \<Rightarrow> jsnum" where
  "totalImpliedProb2Way odds =
     (let (bestOdds1, bestOdds2) = bestOdds2Way odds
      in js_add (js_div (Num 1) (best_odds bestOdds1)) (js_div (Num 1) (best_odds bestOdds2)))"

definition totalImpliedProb3Way :: "quote list \<Rightarrow> jsnum" where
  "totalImpliedProb3Way odds =
     (let (bestOdds1, bestOdds2, bestDraw) = bestOdds3Way odds
      in js_add (js_add (js_div (Num 1) (best_odds bestOdds1))
                   (js_div (Num 1) (best_odds bestOdds2)))
           (js_div (Num 1) (best_odds bestDraw)))"

definition totalImpliedProb :: "quote list \<Rightarrow> jsnum" where
  "totalImpliedProb odds =
     (if hasDrawOdds odds then totalImpliedProb3Way odds else totalImpliedProb2Way odds)"

definition profitPercentage :: "quote list \<Rightarrow> jsnum" where
  "profitPercentage odds =
     js_mul (js_sub (js_div (Num 1) (totalImpliedProb odds)) (Num 1)) (Num 100)"

text \<open>
  The locals \<open>stake1Pct\<close>, \<open>stake2Pct\<close> and \<open>stakeDrawPct\<close>, the stakes before rounding,
  in the order of the legs of the result: side A, the draw if there is one, side B.
\<close>

definition stakePcts2Way :: "quote list \<Rightarrow> jsnum list" where
  "stakePcts2Way odds =
     (let (bestOdds1, bestOdds2) = bestOdds2Way odds;
          impliedProb1 = js_div (Num 1) (best_odds bestOdds1);
          impliedProb2 = js_div (Num 1) (best_odds bestOdds2);
          totalImpliedProb = js_add impliedProb1 impliedProb2
      in [js_mul (js_div impliedProb1 totalImpliedProb) (Num 100),
          js_mul (js_div impliedProb2 totalImpliedProb) (Num 100)])"

definition stakePcts3Way :: "quote list \<Rightarrow> jsnum list" where
  "stakePcts3Way odds =
     (let (bestOdds1, bestOdds2, bestDraw) = bestOdds3Way odds;
          impliedProb1 = js_div (Num 1) (best_odds bestOdds1);
          impliedProb2 = js_div (Num 1) (best_odds bestOdds2);
          impliedProbDraw = js_div (Num 1) (best_odds bestDraw);
          totalImpliedProb = js_add (js_add impliedProb1 impliedProb2) impliedProbDraw
      in [js_mul (js_div impliedProb1 totalImpliedProb) (Num 100),
          js_mul (js_div impliedProbDraw totalImpliedProb) (Num 100),
          js_mul (js_div impliedProb2 totalImpliedProb) (Num 100)])"

definition stakePcts :: "quote list \<Rightarrow> jsnum list" where
  "stakePcts odds = (if hasDrawOdds odds then stakePcts3Way odds else stakePcts2Way odds)"

section \<open>The detection rule in the specification's words\<close>

text \<open>
  The best price of an outcome is the maximum over the valid prices quoted for it, the
  prices greater than 0; an outcome without a valid price has none.  A valid price is a
  positive finite number or \<open>Infinity\<close>, and \<open>Infinity\<close> is the greatest.
\<close>

definition spec_bestPrice :: "jsnum list \<Rightarrow> jsnum option" where
  "spec_bestPrice ps =
     (let vs = filter (\<lambda>p. js_gt p (Num 0)) ps
      in if vs = [] then None
         else if PosInf \<in> set vs then Some PosInf
         else Some (Num (Max (set [x. Num x \<leftarrow> vs]))))"

text \<open>Implied probability of an outcome: \<open>1 / bestPrice\<close>.\<close>

definition spec_impliedProb :: "jsnum list \<Rightarrow> jsnum option" where
  "spec_impliedProb ps = map_option (\<lambda>bestPrice. js_div (Num 1) bestPrice) (spec_bestPrice ps)"

text \<open>
  The outcomes of an event, each with the prices quoted for it, in the canonical order:
  side A, then the draw if some quote carries a valid draw price, then side B.
\<close>

definition spec_outcomes ::
    "jsnum list \<Rightarrow> jsnum list \<Rightarrow> jsnum option list \<Rightarrow> jsnum list list" where
  "spec_outcomes as bs ds =
     (let draws = [d. Some d \<leftarrow> ds]
      in if spec_bestPrice draws = None then [as, bs] else [as, draws, bs])"

text \<open>The implied probabilities of all outcomes, when every outcome is priced.\<close>

definition spec_impliedProbs ::
    "jsnum list \<Rightarrow> jsnum list \<Rightarrow> jsnum option list \<Rightarrow> jsnum list option" where
  "spec_impliedProbs as bs ds = those (map spec_impliedProb (spec_outcomes as bs ds))"

text \<open>
  The total implied probability of two or of three outcomes, given in the canonical
  order.  The order of a sum of doubles matters: it is side A plus side B, plus the draw.
\<close>

fun spec_total :: "jsnum list \<Rightarrow> jsnum" where
  "spec_total [a, b] = js_add a b"
| "spec_total [a, d, b] = js_add (js_add a b) d"
| "spec_total ps = NaN"

text \<open>
  A running best is either the initial one or holds a price that JavaScript finds greater
  than 0, with the bookmaker that quoted it.
\<close>

definition selected :: "best \<Rightarrow> bool" where
  "selected b \<longleftrightarrow> js_gt (best_odds b) (Num 0) \<and> best_bookmaker b \<noteq> None"

definition okBest :: "best \<Rightarrow> bool" where
  "okBest b \<longleftrightarrow> b = noBest \<or> selected b"

text \<open>A number that is not negative: a finite value from 0 on, or \<open>Infinity\<close>.\<close>

definition ge0 :: "jsnum \<Rightarrow> bool" where
  "ge0 x \<longleftrightarrow> (\<exists>m. x = Num m \<and> 0 \<le> m) \<or> x = PosInf"

text \<open>Some leg of an opportunity has a price other than \<open>Infinity\<close>.\<close>

definition finiteLeg :: "opportunity \<Rightarrow> bool" where
  "finiteLeg opp = list_ex (\<lambda>leg. bet_odds leg \<noteq> PosInf) (bets opp)"

text \<open>
  The prices of the quotes are JavaScript numbers: every finite price is a double.  The
  model holds a finite number as a real, so this is stated where a property depends on
  it.  Every number that JavaScript holds satisfies it, and so does every number that the
  arithmetic operations above return.
\<close>

definition jsNumber :: "jsnum \<Rightarrow> bool" where
  "jsNumber p = (case p of Num x \<Rightarrow> isDouble x | _ \<Rightarrow> True)"

definition jsNumbers :: "quote list \<Rightarrow> bool" where
  "jsNumbers odds =
     list_all (\<lambda>q. jsNumber (odds1 q) \<and> jsNumber (odds2 q)
                 \<and> (case draw_odds q of None \<Rightarrow> True | Some d \<Rightarrow> jsNumber d)) odds"

text \<open>
  The total implied probability of the legs of an opportunity in exact arithmetic: the
  sum of \<open>1 / price\<close> as real numbers, where \<open>1 / Infinity\<close> is 0.
\<close>

definition spec_exactProb :: "jsnum \<Rightarrow> real" where
  "spec_exactProb p = (case p of Num m \<Rightarrow> 1 / m | _ \<Rightarrow> 0)"

definition spec_exactTotal :: "opportunity \<Rightarrow> real" where
  "spec_exactTotal opp = sum_list (map (\<lambda>leg. spec_exactProb (bet_odds leg)) (bets opp))"

text \<open>
  Stake conservation in the specification's words: the sum of the stakes of the legs, as
  JavaScript adds them up, is a number within 0.01 of 100.
\<close>

definition spec_stakesTotal :: "opportunity \<Rightarrow> jsnum" where
  "spec_stakesTotal opp = foldl js_add (Num 0) (map stake_pct (bets opp))"

definition spec_conserved :: "opportunity \<Rightarrow> bool" where
  "spec_conserved opp = (case spec_stakesTotal opp of Num s \<Rightarrow> \<bar>s - 100\<bar> \<le> 1 / 100 | _ \<Rightarrow> False)"

text \<open>
  Some quote carries a price greater than 0 for an outcome.  The outcome is given by the
  field that holds its price: \<open>Some \<circ> odds1\<close>, \<open>Some \<circ> odds2\<close> or \<open>draw_odds\<close>.
\<close>

definition carriesPrice :: "(quote \<Rightarrow> jsnum option) \<Rightarrow> quote list \<Rightarrow> bool" where
  "carriesPrice price odds =
     list_ex (\<lambda>q. case price q of None \<Rightarrow> False | Some p \<Rightarrow> js_gt p (Num 0)) odds"

text \<open>
  A best is picked from the quotes of an outcome: it is the initial one, or the price,
  greater than 0, and the bookmaker of one of the quotes.
\<close>

definition pickedFrom :: "(quote \<Rightarrow> jsnum option) \<Rightarrow> quote list \<Rightarrow> best \<Rightarrow> bool" where
  "pickedFrom price odds b \<longleftrightarrow>
     b = noBest \<or>
     list_ex (\<lambda>q. case price q of
                 None \<Rightarrow> False
               | Some p \<Rightarrow> js_gt p (Num 0)
                    \<and> b = \<lparr>best_odds = p, best_bookmaker = Some (bookmaker q)\<rparr>) odds"

text \<open>
  The specification's words on validity: a price that is at most 1.0 or not finite is to
  be treated as absent, and an event is three-outcome when some quote carries a draw
  price greater than 1.0.
\<close>

definition spec_absentPrice :: "jsnum \<Rightarrow> bool" where
  "spec_absentPrice p = (case p of Num x \<Rightarrow> x \<le> 1 | _ \<Rightarrow> True)"

definition spec_threeOutcome :: "quote list \<Rightarrow> bool" where
  "spec_threeOutcome odds =
     list_ex (\<lambda>q. case draw_odds q of Some (Num d) \<Rightarrow> 1 < d | _ \<Rightarrow> False) odds"

section \<open>Match identifiers\<close>

text \<open>
  Team names are modelled as strings of 8-bit characters.  \<open>toLowerCase\<close> maps the ASCII
  capitals to small letters, and \<open>\s\<close> matches the ASCII white space: space, tab, line
  feed, vertical tab, form feed and carriage return.
\<close>

definition toLowerCase_char :: "char \<Rightarrow> char" where
  "toLowerCase_char c =
     (case map_of (zip ''ABCDEFGHIJKLMNOPQRSTUVWXYZ'' ''abcdefghijklmnopqrstuvwxyz'') c of
        Some l \<Rightarrow> l | None \<Rightarrow> c)"

definition toLowerCase :: "string \<Rightarrow> string" where
  "toLowerCase t = map toLowerCase_char t"

definition is_space :: "char \<Rightarrow> bool" where
  "is_space c \<longleftrightarrow> c \<in> set [CHR '' '', CHR 0x09, CHR 0x0A, CHR 0x0B, CHR 0x0C, CHR 0x0D]"

text \<open>\<open>t.replace(/\s+/g, '-')\<close>: every maximal run of white space becomes one hyphen.\<close>

function replace_spaces :: "string \<Rightarrow> string" where
  "replace_spaces [] = []"
| "replace_spaces (c # cs) =
     (if is_space c then CHR ''-'' # replace_spaces (dropWhile is_space cs)
      else c # replace_spaces cs)"
  by pat_completeness auto
termination
  by (relation "measure length") (auto simp: le_imp_less_Suc length_dropWhile_le)

text \<open>\<open>xs.join(sep)\<close>\<close>

fun join :: "string \<Rightarrow> string list \<Rightarrow> string" where
  "join sep [] = []"
| "join sep [x] = x"
| "join sep (x # y # ys) = x @ sep @ join sep (y # ys)"

text \<open>
  \<open>[team1, team2].map(t => t.toLowerCase().replace(/\s+/g, '-')).sort().join('_')\<close>.
  The default \<open>sort\<close> orders strings by their code units, which is the lexicographic
  order of character lists.
\<close>

definition normalized :: "string \<Rightarrow> string \<Rightarrow> string" where
  "normalized t1 t2 =
     join ''_'' (sort (map (\<lambda>t. replace_spaces (toLowerCase t)) [t1, t2]))"

text \<open>\<open>generateMatchId\<close> of the scraper that reads The Odds API.\<close>

definition generateMatchId :: "string \<Rightarrow> string \<Rightarrow> string" where
  "generateMatchId t1 t2 = ''match_'' @ normalized t1 t2"

text \<open>The decimal digits of a natural number, as \<open>toString\<close> prints a timestamp.\<close>

definition digit :: "nat \<Rightarrow> char" where
  "digit d = ''0123456789'' ! d"

fun toString :: "nat \<Rightarrow> string" where
  "toString n =
     (if n < 10 then [digit n] else toString (n div 10) @ [digit (n mod 10)])"

declare toString.simps [simp del]

text \<open>\<open>s.slice(-6)\<close>: the last six characters, or all of a shorter string.\<close>

definition slice_last6 :: "string \<Rightarrow> string" where
  "slice_last6 s = drop (length s - 6) s"

text \<open>
  \<open>generateMatchId\<close> of the scraper that generates mock odds; \<open>now\<close> is the value that
  \<open>Date.now()\<close> returns during the call.
\<close>

definition generateMatchId_mock :: "nat \<Rightarrow> string \<Rightarrow> string \<Rightarrow> string" where
  "generateMatchId_mock now t1 t2 =
     ''match_'' @ normalized t1 t2 @ ''_'' @ slice_last6 (toString now)"

section \<open>The on-demand scraper\<close>

text \<open>
  The cache status, shared by all calls: \<open>lastScrapeTime\<close> is \<open>null\<close> or a timestamp in
  milliseconds, \<open>isScraping\<close> is the flag of a refresh in flight.
\<close>

record cache =
  lastScrapeTime :: "int option"
  isScraping :: bool

definition CACHE_DURATION :: int where
  "CACHE_DURATION = 30 * 60 * 1000"

text \<open>
  \<open>needsFreshData\<close>, at the time \<open>now\<close> that \<open>Date.now()\<close> returns.  \<open>!lastScrapeTime\<close>
  holds for \<open>null\<close> and for the number 0.
\<close>

definition needsFreshData :: "cache \<Rightarrow> int \<Rightarrow> bool" where
  "needsFreshData g now =
     (case lastScrapeTime g of
        None \<Rightarrow> True
      | Some t \<Rightarrow> if t = 0 then True else CACHE_DURATION < now - t)"

text \<open>
  \<open>Math.round((Date.now() - lastScrapeTime) / 1000 / 60)\<close>; \<open>Math.round\<close> rounds halves
  up, and \<open>null\<close> counts as 0 in the subtraction.
\<close>

definition cacheAge :: "cache \<Rightarrow> int \<Rightarrow> int" where
  "cacheAge g now =
     (case lastScrapeTime g of
        None \<Rightarrow> \<lfloor>(of_int now / 1000 / 60 :: real) + 1 / 2\<rfloor>
      | Some t \<Rightarrow> \<lfloor>(of_int (now - t) / 1000 / 60 :: real) + 1 / 2\<rfloor>)"

text \<open>
  The objects that \<open>getOrScrapeData\<close> returns: \<open>{ scraped: false, cacheAge }\<close>,
  \<open>{ scraped: false, waited: true }\<close>, \<open>{ scraped: true, error: 'No odds found' }\<close> and
  \<open>{ scraped: true, oddsCount }\<close>.
\<close>

datatype result = Cached int | Waited | NoOdds | Scraped nat

text \<open>
  The collaborators that a call invokes: \<open>scrapeAllSports\<close>, \<open>storeOdds\<close> and
  \<open>detectArbitrageOpportunities\<close>.
\<close>

datatype effect = Fetch | Store | Detect

text \<open>
  \<open>getOrScrapeData\<close> is an asynchronous function: it runs without interruption up to an
  \<open>await\<close>, and is resumed when the awaited promise settles.  A call is at one of these
  points: not yet made; waiting in \<open>waitForScrape\<close> on the timer, with the milliseconds
  waited so far; awaiting \<open>scrapeAllSports\<close>; awaiting \<open>storeOdds\<close>; awaiting
  \<open>detectArbitrageOpportunities\<close>; returned; or ended by rethrowing an error, given by
  its message.
\<close>

datatype pc =
    Idle
  | Waiting int
  | Fetching
  | Storing "quote list"
  | Detecting "quote list"
  | Returned result
  | Threw string

text \<open>
  What resumes a call: the call itself, with the two values that \<open>Date.now()\<close> returns
  in \<open>needsFreshData\<close> and in the computation of the cache age; the one-second timer of
  \<open>waitForScrape\<close>; the promise of a collaborator, resolved or rejected.
  \<open>detectArbitrageOpportunities\<close> catches every error of its own, so its promise only
  resolves; the event carries the value of \<open>Date.now()\<close> read after it.
\<close>

datatype event =
    Call int int
  | Tick
  | FetchResolved "quote list"
  | FetchRejected string
  | StoreResolved
  | StoreRejected string
  | DetectResolved int

definition maxWait :: int where
  "maxWait = 60000"

text \<open>
  The head of the loop of \<open>waitForScrape\<close>, \<open>while (isScraping && waited < maxWait)\<close>:
  the call waits for the timer again, or \<open>waitForScrape\<close> ends and \<open>getOrScrapeData\<close>
  returns.
\<close>

definition waitLoop :: "cache \<Rightarrow> int \<Rightarrow> pc" where
  "waitLoop g waited =
     (if isScraping g \<and> waited < maxWait then Waiting waited else Returned Waited)"

text \<open>
  One uninterrupted segment of a call: from the cache status, the point of the call and
  the event, the new cache status, the new point and the collaborators invoked.  \<open>None\<close>
  when the event does not resume a call at that point.
\<close>

fun getOrScrapeData :: "cache \<Rightarrow> pc \<Rightarrow> event \<Rightarrow> (cache \<times> pc \<times> effect list) option" where
  "getOrScrapeData g Idle (Call now now') =
     Some (if \<not> needsFreshData g now then (g, Returned (Cached (cacheAge g now')), [])
           else if isScraping g then (g, waitLoop g 0, [])
           else (g\<lparr>isScraping := True\<rparr>, Fetching, [Fetch]))"
| "getOrScrapeData g (Waiting waited) Tick = Some (g, waitLoop g (waited + 1000), [])"
| "getOrScrapeData g Fetching (FetchRejected e) = Some (g\<lparr>isScraping := False\<rparr>, Threw e, [])"
| "getOrScrapeData g Fetching (FetchResolved allOdds) =
     Some (if length allOdds = 0 then (g\<lparr>isScraping := False\<rparr>, Returned NoOdds, [])
           else (g, Storing allOdds, [Store]))"
| "getOrScrapeData g (Storing allOdds) (StoreRejected e) = Some (g\<lparr>isScraping := False\<rparr>, Threw e, [])"
| "getOrScrapeData g (Storing allOdds) StoreResolved = Some (g, Detecting allOdds, [Detect])"
| "getOrScrapeData g (Detecting allOdds) (DetectResolved now) =
     Some (g\<lparr>lastScrapeTime := Some now, isScraping := False\<rparr>,
           Returned (Scraped (length allOdds)), [])"
| "getOrScrapeData g p ev = None"

text \<open>One call run on its own through a list of events.\<close>

fun runCall :: "cache \<Rightarrow> pc \<Rightarrow> event list \<Rightarrow> (cache \<times> pc \<times> effect list) option" where
  "runCall g p [] = Some (g, p, [])"
| "runCall g p (ev # evs) =
     (case getOrScrapeData g p ev of
        None \<Rightarrow> None
      | Some (g', p', effs) \<Rightarrow>
          (case runCall g' p' evs of
             None \<Rightarrow> None
           | Some (g'', p'', effs') \<Rightarrow> Some (g'', p'', effs @ effs')))"

text \<open>
  Several calls on one event loop: the shared cache status, every call with its point
  and the collaborators it has invoked so far, and the number of times
  \<open>scrapeAllSports\<close> has been invoked.  The event loop resumes one call at a time.
\<close>

record sys =
  shared :: cache
  calls :: "(pc \<times> effect list) list"
  fetches :: nat

definition resume :: "sys \<Rightarrow> nat \<Rightarrow> event \<Rightarrow> sys option" where
  "resume s i ev =
     (if i < length (calls s) then
        (case getOrScrapeData (shared s) (fst (calls s ! i)) ev of
           None \<Rightarrow> None
         | Some (g', p', effs) \<Rightarrow>
             Some \<lparr>shared = g',
                   calls = (calls s)[i := (p', snd (calls s ! i) @ effs)],
                   fetches = fetches s + count_list effs Fetch\<rparr>)
      else None)"

definition someIdle :: "sys \<Rightarrow> bool" where
  "someIdle s = list_ex (\<lambda>c. fst c = Idle) (calls s)"

definition allIdle :: "sys \<Rightarrow> bool" where
  "allIdle s = list_all (\<lambda>c. fst c = Idle) (calls s)"

text \<open>A segment ends the refresh in flight when it clears the flag.\<close>

definition endsRefresh :: "sys \<Rightarrow> sys \<Rightarrow> bool" where
  "endsRefresh s s' \<longleftrightarrow> isScraping (shared s) \<and> \<not> isScraping (shared s')"

text \<open>
  A run of the system through a list of resumptions, each naming the call and the
  event.  With \<open>conc\<close> the calls are concurrent: every call is made before the refresh in
  flight ends, so a resumption that would end it while some call is still to be made is
  not part of the run.
\<close>

fun eventLoop :: "bool \<Rightarrow> sys \<Rightarrow> (nat \<times> event) list \<Rightarrow> sys option" where
  "eventLoop conc s [] = Some s"
| "eventLoop conc s ((i, ev) # tr) =
     (case resume s i ev of
        None \<Rightarrow> None
      | Some s' \<Rightarrow> if conc \<and> endsRefresh s s' \<and> someIdle s then None else eventLoop conc s' tr)"

definition notCalled :: "cache \<Rightarrow> nat \<Rightarrow> sys" where
  "notCalled g n = \<lparr>shared = g, calls = replicate n (Idle, []), fetches = 0\<rparr>"

text \<open>The cached data is stale, as seen from the cache status \<open>g\<close>, whenever a call is made.\<close>

definition staleEvent :: "cache \<Rightarrow> event \<Rightarrow> bool" where
  "staleEvent g ev = (case ev of Call now now' \<Rightarrow> needsFreshData g now | _ \<Rightarrow> True)"

definition staleCalls :: "cache \<Rightarrow> (nat \<times> event) list \<Rightarrow> bool" where
  "staleCalls g tr = list_all (\<lambda>(i, ev). staleEvent g ev) tr"

text \<open>A call has a refresh in flight between setting the flag and clearing it.\<close>

fun inFlight :: "pc \<Rightarrow> bool" where
  "inFlight Fetching = True"
| "inFlight (Storing allOdds) = True"
| "inFlight (Detecting allOdds) = True"
| "inFlight p = False"

text \<open>The collaborators a call has invoked, by the point it is at.\<close>

fun logOK :: "pc \<Rightarrow> effect list \<Rightarrow> bool" where
  "logOK Fetching l = (l = [Fetch])"
| "logOK (Storing allOdds) l = (l = [Fetch, Store])"
| "logOK (Detecting allOdds) l = (l = [Fetch, Store, Detect])"
| "logOK (Returned (Scraped n)) l = (l = [Fetch, Store, Detect])"
| "logOK (Returned NoOdds) l = (l = [Fetch])"
| "logOK (Threw e) l = (l = [Fetch] \<or> l = [Fetch, Store])"
| "logOK p l = (l = [])"

text \<open>The invariants of the system.\<close>

definition mutex :: "sys \<Rightarrow> bool" where
  "mutex s \<longleftrightarrow>
     length (filter (\<lambda>c. inFlight (fst c)) (calls s)) = (if isScraping (shared s) then 1 else 0)"

definition logsOK :: "sys \<Rightarrow> bool" where
  "logsOK s = list_all (\<lambda>c. logOK (fst c) (snd c)) (calls s)"

definition counted :: "sys \<Rightarrow> bool" where
  "counted s \<longleftrightarrow> fetches s = sum_list (map (\<lambda>c. count_list (snd c) Fetch) (calls s))"

definition singleFlight :: "cache \<Rightarrow> sys \<Rightarrow> bool" where
  "singleFlight g0 s \<longleftrightarrow>
     (allIdle s \<and> fetches s = 0 \<and> shared s = g0)
     \<or> (\<not> allIdle s \<and> fetches s = 1 \<and> (isScraping (shared s) \<or> \<not> someIdle s))"

text \<open>
  The specification's words: a refresh is due when the timestamp is unset or at least the
  freshness window of 30 minutes old; a call performs the fetch, the store and the
  detection, or nothing.
\<close>

definition spec_refreshDue :: "cache \<Rightarrow> int \<Rightarrow> bool" where
  "spec_refreshDue g now =
     (case lastScrapeTime g of None \<Rightarrow> True | Some t \<Rightarrow> 30 * 60 * 1000 \<le> now - t)"

definition spec_effects :: "effect list \<Rightarrow> bool" where
  "spec_effects l \<longleftrightarrow> l = [Fetch, Store, Detect] \<or> l = []"

section \<open>Example inputs\<close>

text \<open>A quote of one bookmaker for the event Lakers against Celtics.\<close>

definition mkQuote :: "string \<Rightarrow> jsnum \<Rightarrow> jsnum \<Rightarrow> jsnum option \<Rightarrow> quote" where
  "mkQuote bk p1 p2 pd =
     \<lparr>team1 = ''Lakers'', team2 = ''Celtics'', bookmaker = bk,
      odds1 = p1, odds2 = p2, draw_odds = pd\<rparr>"

text \<open>
  Two bookmakers whose best prices, 2.10 and 2.20, allow an arbitrage.  A decimal price
  is the double nearest to it.
\<close>

definition quotesArb :: "quote list" where
  "quotesArb =
     [mkQuote ''Bet365'' (to_double (21 / 10)) (to_double (17 / 10)) None,
      mkQuote ''FanDuel'' (to_double (18 / 10)) (to_double (22 / 10)) None]"

definition oppArb :: opportunity where
  "oppArb =
     \<lparr>exists_flag = True, profit_percentage = to_double (744 / 100),
      bets =
        [\<lparr>outcome = ''Lakers'', bet_bookmaker = Some ''Bet365'', bet_odds = to_double (21 / 10),
          stake_pct = to_double (5116 / 100)\<rparr>,
         \<lparr>outcome = ''Celtics'', bet_bookmaker = Some ''FanDuel'', bet_odds = to_double (22 / 10),
          stake_pct = to_double (4884 / 100)\<rparr>]\<rparr>"

text \<open>Three bookmakers on a three-outcome event; the third quotes no draw.\<close>

definition quotes3Way :: "quote list" where
  "quotes3Way =
     [mkQuote ''Bet365'' (to_double (35 / 10)) (to_double (25 / 10)) (Some (to_double (32 / 10))),
      mkQuote ''FanDuel'' (to_double (29 / 10)) (to_double (36 / 10)) (Some (to_double (39 / 10))),
      mkQuote ''Unibet'' (Num 3) (Num 3) None]"

definition opp3Way :: opportunity where
  "opp3Way =
     \<lparr>exists_flag = True, profit_percentage = to_double (2197 / 100),
      bets =
        [\<lparr>outcome = ''Lakers'', bet_bookmaker = Some ''Bet365'', bet_odds = to_double (35 / 10),
          stake_pct = to_double (3485 / 100)\<rparr>,
         \<lparr>outcome = ''Draw'', bet_bookmaker = Some ''FanDuel'', bet_odds = to_double (39 / 10),
          stake_pct = to_double (3127 / 100)\<rparr>,
         \<lparr>outcome = ''Celtics'', bet_bookmaker = Some ''FanDuel'', bet_odds = to_double (36 / 10),
          stake_pct = to_double (3388 / 100)\<rparr>]\<rparr>"

text \<open>
  Best prices 1.01 and 101.01: the implied probabilities sum to a little less than 1, and
  the profit before rounding is about 0.0001 percent.
\<close>

definition quotesThin :: "quote list" where
  "quotesThin =
     [mkQuote ''Bet365'' (to_double (101 / 100)) (Num 50) None,
      mkQuote ''FanDuel'' (Num 1) (to_double (10101 / 100)) None]"

definition oppThin :: opportunity where
  "oppThin =
     \<lparr>exists_flag = True, profit_percentage = Num 0,
      bets =
        [\<lparr>outcome = ''Lakers'', bet_bookmaker = Some ''Bet365'', bet_odds = to_double (101 / 100),
          stake_pct = to_double (9901 / 100)\<rparr>,
         \<lparr>outcome = ''Celtics'', bet_bookmaker = Some ''FanDuel'',
          bet_odds = to_double (10101 / 100), stake_pct = to_double (99 / 100)\<rparr>]\<rparr>"

text \<open>
  Best prices 2, 3 and 6 for side A, side B and the draw: the implied probabilities 1/2,
  1/3 and 1/6 sum to exactly 1, and their sum in double arithmetic is \<open>1 - 2^(-53)\<close>.
\<close>

definition quotesEven :: "quote list" where
  "quotesEven =
     [mkQuote ''Bet365'' (Num 2) (Num (5 / 2)) (Some (Num 6)),
      mkQuote ''FanDuel'' (Num (3 / 2)) (Num 3) (Some (Num 5))]"

definition oppEven :: opportunity where
  "oppEven =
     \<lparr>exists_flag = True, profit_percentage = Num 0,
      bets =
        [\<lparr>outcome = ''Lakers'', bet_bookmaker = Some ''Bet365'', bet_odds = Num 2,
          stake_pct = Num 50\<rparr>,
         \<lparr>outcome = ''Draw'', bet_bookmaker = Some ''Bet365'', bet_odds = Num 6,
          stake_pct = to_double (1667 / 100)\<rparr>,
         \<lparr>outcome = ''Celtics'', bet_bookmaker = Some ''FanDuel'', bet_odds = Num 3,
          stake_pct = to_double (3333 / 100)\<rparr>]\<rparr>"

text \<open>
  Best prices 1.375 and 18.625: the exact stakes are 93.125 and 6.875, and the stakes in
  double arithmetic are just below them.
\<close>

definition quotesTie :: "quote list" where
  "quotesTie =
     [mkQuote ''Bet365'' (Num (11 / 8)) (Num 18) None,
      mkQuote ''FanDuel'' (Num (5 / 4)) (Num (149 / 8)) None]"

definition oppTie :: opportunity where
  "oppTie =
     \<lparr>exists_flag = True, profit_percentage = to_double (2805 / 100),
      bets =
        [\<lparr>outcome = ''Lakers'', bet_bookmaker = Some ''Bet365'', bet_odds = Num (11 / 8),
          stake_pct = to_double (9312 / 100)\<rparr>,
         \<lparr>outcome = ''Celtics'', bet_bookmaker = Some ''FanDuel'', bet_odds = Num (149 / 8),
          stake_pct = to_double (687 / 100)\<rparr>]\<rparr>"

text \<open>Both sides are quoted at \<open>Infinity\<close>.\<close>

definition quotesInf :: "quote list" where
  "quotesInf =
     [mkQuote ''Bet365'' PosInf (Num 2) None,
      mkQuote ''FanDuel'' (Num 2) PosInf None]"

definition oppInf :: opportunity where
  "oppInf =
     \<lparr>exists_flag = True, profit_percentage = PosInf,
      bets =
        [\<lparr>outcome = ''Lakers'', bet_bookmaker = Some ''Bet365'', bet_odds = PosInf,
          stake_pct = NaN\<rparr>,
         \<lparr>outcome = ''Celtics'', bet_bookmaker = Some ''FanDuel'', bet_odds = PosInf,
          stake_pct = NaN\<rparr>]\<rparr>"

text \<open>Side A is quoted at 0.50 and 0.40 only.\<close>

definition quotesLow :: "quote list" where
  "quotesLow =
     [mkQuote ''Bet365'' (Num (1 / 2)) (Num 3) None,
      mkQuote ''FanDuel'' (to_double (2 / 5)) (Num 2) None]"

text \<open>The arbitrage example with a draw price of 0.50 on the first quote.\<close>

definition quotesLowDraw :: "quote list" where
  "quotesLowDraw =
     [mkQuote ''Bet365'' (to_double (21 / 10)) (to_double (17 / 10)) (Some (Num (1 / 2))),
      mkQuote ''FanDuel'' (to_double (18 / 10)) (to_double (22 / 10)) None]"

text \<open>No quote has a positive price for side A.\<close>

definition quotesNoSideA :: "quote list" where
  "quotesNoSideA =
     [mkQuote ''Bet365'' (Num 0) (Num 3) None,
      mkQuote ''FanDuel'' NaN (Num 2) None]"

text \<open>The cache status at process start, and after a refresh at time \<open>t\<close>.\<close>

definition started :: cache where
  "started = \<lparr>lastScrapeTime = None, isScraping = False\<rparr>"

definition cachedAt :: "int \<Rightarrow> cache" where
  "cachedAt t = \<lparr>lastScrapeTime = Some t, isScraping = False\<rparr>"

text \<open>
  Three calls at process start: the first fetches, the other two are made while the
  fetch is in flight and wait; the refresh succeeds and the waiting calls return.
\<close>

definition threeCalls :: "(nat \<times> event) list" where
  "threeCalls =
     [(0, Call 1000 1000), (1, Call 1001 1001), (2, Call 1002 1002), (1, Tick),
      (0, FetchResolved quotesArb), (0, StoreResolved), (0, DetectResolved 5000),
      (1, Tick), (2, Tick)]"

definition afterThreeCalls :: sys where
  "afterThreeCalls =
     \<lparr>shared = \<lparr>lastScrapeTime = Some 5000, isScraping = False\<rparr>,
      calls = [(Returned (Scraped 2), [Fetch, Store, Detect]),
               (Returned Waited, []), (Returned Waited, [])],
      fetches = 1\<rparr>"

text \<open>One call at process start whose fetch finds no odds.\<close>

definition emptyFetch :: "(nat \<times> event) list" where
  "emptyFetch = [(0, Call 1000 1000), (0, FetchResolved [])]"

definition afterEmptyFetch :: sys where
  "afterEmptyFetch =
     \<lparr>shared = started, calls = [(Returned NoOdds, [Fetch])], fetches = 1\<rparr>"

section \<open>Properties of the rounding to doubles\<close>


lemma pow2_powr: "pow2 k = 2 powr (of_int k)"
proof (cases "0 \<le> k")
  case True
  then show ?thesis by (simp add: pow2_def powr_realpow [symmetric])
next
  case False
  then have "real_of_int k = - real (nat (- k))" by simp
  then have "2 powr (of_int k) = 1 / 2 powr (real (nat (- k)))"
    by (simp only: powr_minus_divide)
  also have "\<dots> = 1 / 2 ^ nat (- k)" by (simp only: powr_realpow [of 2, simplified])
  finally show ?thesis using False by (simp add: pow2_def)
qed

lemma pow2_pos [simp]: "0 < pow2 k"
  by (simp add: pow2_powr)

lemma pow2_nonneg [simp]: "0 \<le> pow2 k"
  by (simp add: pow2_powr)

lemma pow2_ne0 [simp]: "pow2 k \<noteq> 0"
  by (simp add: pow2_powr)

lemma pow2_le_pos: "pow2 k \<le> x \<Longrightarrow> 0 < x"
  by (rule less_le_trans [OF pow2_pos])

lemma pow2_or_0_nonneg: "x = 0 \<or> pow2 k \<le> x \<Longrightarrow> 0 \<le> x"
  using pow2_le_pos [of k x] by auto

lemma pow2_or_0_pos: "x = 0 \<or> pow2 k \<le> x \<Longrightarrow> x \<noteq> 0 \<Longrightarrow> pow2 k \<le> x"
  by auto

lemma pow2_add: "pow2 (a + b) = pow2 a * pow2 b"
  by (simp add: pow2_powr powr_add)

lemma pow2_diff: "pow2 (a - b) = pow2 a / pow2 b"
  by (simp add: pow2_powr powr_diff)

lemma pow2_0 [simp]: "pow2 0 = 1"
  by (simp add: pow2_def)

lemma pow2_mono: "a \<le> b \<Longrightarrow> pow2 a \<le> pow2 b"
  by (simp add: pow2_powr)

lemma pow2_less: "a < b \<Longrightarrow> pow2 a < pow2 b"
  by (simp add: pow2_powr)

lemma pow2_le_iff: "pow2 a \<le> pow2 b \<longleftrightarrow> a \<le> b"
  by (simp add: pow2_powr)

lemma pow2_less_iff: "pow2 a < pow2 b \<longleftrightarrow> a < b"
  by (simp add: pow2_powr)

lemma pow2_int: "0 \<le> k \<Longrightarrow> pow2 k = of_int (2 ^ nat k)"
  by (simp add: pow2_def)

lemma expo_bounds:
  assumes "0 < x"
  shows "pow2 (expo x) \<le> x" and "x < pow2 (expo x + 1)"
proof -
  have "pow2 (expo x) \<le> x \<and> x < pow2 (expo x + 1)"
  proof (cases "1 \<le> x")
    case True
    define n where "n = \<lfloor>x\<rfloor>"
    have n: "0 < n" using True by (simp add: n_def)
    have b1: "1 \<le> bitlen n" using n by (simp add: bitlen_alt_def)
    from bitlen_bounds [OF n] have lo: "2 ^ nat (bitlen n - 1) \<le> n" and hi: "n < 2 ^ nat (bitlen n)"
      by auto
    have "real_of_int (2 ^ nat (bitlen n - 1)) \<le> real_of_int n" using lo by linarith
    also have "\<dots> \<le> x" by (simp add: n_def)
    finally have l: "pow2 (bitlen n - 1) \<le> x" using b1 by (simp add: pow2_int)
    have "n + 1 \<le> 2 ^ nat (bitlen n)" using hi by simp
    then have "real_of_int (n + 1) \<le> real_of_int (2 ^ nat (bitlen n))" by linarith
    moreover have "x < real_of_int (n + 1)" by (simp add: n_def)
    ultimately have "x < real_of_int (2 ^ nat (bitlen n))" by linarith
    then have h: "x < pow2 (bitlen n)" using b1 by (simp add: pow2_int)
    from l h True show ?thesis by (simp add: expo_def n_def)
  next
    case False
    define y where "y = 1 / x"
    define c where "c = \<lceil>y\<rceil> - 1"
    have y: "1 < y" using False assms by (simp add: y_def)
    have c: "0 < c" using y by (simp add: c_def)
    have b1: "1 \<le> bitlen c" using c by (simp add: bitlen_alt_def)
    from bitlen_bounds [OF c] have lo: "2 ^ nat (bitlen c - 1) \<le> c" and hi: "c < 2 ^ nat (bitlen c)"
      by auto
    have "c + 1 \<le> 2 ^ nat (bitlen c)" using hi by simp
    then have "real_of_int (c + 1) \<le> real_of_int (2 ^ nat (bitlen c))" by linarith
    moreover have "y \<le> real_of_int (c + 1)" by (simp add: c_def)
    ultimately have "y \<le> 2 ^ nat (bitlen c)" by simp
    then have "1 / 2 ^ nat (bitlen c) \<le> x"
      using assms by (simp add: y_def field_simps)
    then have l: "pow2 (- bitlen c) \<le> x"
      using b1 by (simp add: pow2_def)
    have "real_of_int c < y" by (simp add: c_def) linarith
    moreover have "(2::real) ^ nat (bitlen c - 1) \<le> real_of_int c"
      using of_int_le_iff [of "2 ^ nat (bitlen c - 1)" c, where ?'a = real] lo by simp
    ultimately have "2 ^ nat (bitlen c - 1) < y" by linarith
    then have "x < 1 / 2 ^ nat (bitlen c - 1)"
      using assms by (simp add: y_def field_simps)
    moreover have "pow2 (- bitlen c + 1) = 1 / 2 ^ nat (bitlen c - 1)"
      using b1 by (auto simp: pow2_def)
    ultimately have h: "x < pow2 (- bitlen c + 1)" by simp
    from l h False show ?thesis by (simp add: expo_def y_def c_def)
  qed
  then show "pow2 (expo x) \<le> x" and "x < pow2 (expo x + 1)" by simp_all
qed

lemma round_even_err: "\<bar>of_int (round_even r) - r\<bar> \<le> 1 / 2"
  unfolding round_even_def Let_def by (auto; linarith)

lemma round_even_ge: "of_int m \<le> r \<Longrightarrow> m \<le> round_even r"
  unfolding round_even_def Let_def by (auto simp: le_floor_iff; linarith)

lemma round_even_le: "r \<le> of_int m \<Longrightarrow> round_even r \<le> m"
proof -
  assume a: "r \<le> of_int m"
  have f: "\<lfloor>r\<rfloor> \<le> m" using a by (simp add: floor_le_iff)
  show ?thesis
  proof (cases "\<lfloor>r\<rfloor> = m")
    case True
    then have "r = of_int m" using a by linarith
    then show ?thesis by (simp add: round_even_def)
  next
    case False
    with f have "\<lfloor>r\<rfloor> + 1 \<le> m" by simp
    then show ?thesis unfolding round_even_def Let_def by auto
  qed
qed

lemma round_even_int [simp]: "round_even (of_int m) = m"
  by (simp add: round_even_def)

lemma quantum_ge: "- 1074 \<le> quantum x"
  by (simp add: quantum_def)

lemma nearest_nonneg: "0 < x \<Longrightarrow> 0 \<le> nearest x"
proof -
  assume "0 < x"
  then have "of_int 0 \<le> x / pow2 (quantum x)" by simp
  then have "0 \<le> round_even (x / pow2 (quantum x))" by (rule round_even_ge)
  then show ?thesis by (simp add: nearest_def)
qed

lemma nearest_ge:
  assumes "0 < x" "pow2 k \<le> x" "- 1074 \<le> k"
  shows "pow2 k \<le> nearest x"
proof -
  define e where "e = expo x"
  define q where "q = quantum x"
  have ke: "k \<le> e"
  proof -
    have "pow2 k < pow2 (e + 1)" using assms(2) expo_bounds(2) [OF assms(1)] by (simp add: e_def)
    then show ?thesis by (simp add: pow2_less_iff)
  qed
  define j where "j = max k (max e (- 1022) - 52)"
  have jq: "q \<le> j" by (simp add: j_def q_def quantum_def e_def)
  have jx: "pow2 j \<le> x"
  proof (cases "k \<le> max e (- 1022) - 52")
    case True
    then have "j = max e (- 1022) - 52" by (simp add: j_def)
    moreover have "max e (- 1022) - 52 \<le> e" using ke assms(3) by simp
    ultimately have "pow2 j \<le> pow2 e" by (simp add: pow2_le_iff)
    then show ?thesis using expo_bounds(1) [OF assms(1)] by (simp add: e_def)
  next
    case False
    then have "j = k" by (simp add: j_def)
    then show ?thesis using assms(2) by simp
  qed
  have kj: "k \<le> j" by (simp add: j_def)
  have "pow2 (j - q) = of_int (2 ^ nat (j - q))" using jq by (simp add: pow2_int)
  moreover have "pow2 (j - q) \<le> x / pow2 q"
    using jx by (simp add: pow2_diff divide_right_mono)
  ultimately have "of_int (2 ^ nat (j - q)) \<le> x / pow2 q" by simp
  then have "2 ^ nat (j - q) \<le> round_even (x / pow2 q)" by (rule round_even_ge)
  then have "real_of_int (2 ^ nat (j - q)) \<le> of_int (round_even (x / pow2 q))" by linarith
  then have "pow2 (j - q) * pow2 q \<le> of_int (round_even (x / pow2 q)) * pow2 q"
    using jq by (simp add: pow2_int)
  then have "pow2 j \<le> nearest x"
    by (simp add: pow2_add [symmetric] nearest_def q_def)
  moreover have "pow2 k \<le> pow2 j" using kj by (simp add: pow2_le_iff)
  ultimately show ?thesis by linarith
qed

lemma nearest_le:
  assumes "0 < x" "x \<le> pow2 k" "- 1074 \<le> k"
  shows "nearest x \<le> pow2 k"
proof -
  define e where "e = expo x"
  define q where "q = quantum x"
  have ek: "e \<le> k"
  proof -
    have "pow2 e \<le> pow2 k" using assms(2) expo_bounds(1) [OF assms(1)] by (simp add: e_def)
    then show ?thesis by (simp add: pow2_le_iff)
  qed
  have qk: "q \<le> k" using ek assms(3) by (simp add: q_def quantum_def e_def)
  have "pow2 (k - q) = of_int (2 ^ nat (k - q))" using qk by (simp add: pow2_int)
  moreover have "x / pow2 q \<le> pow2 (k - q)"
    using assms(2) by (simp add: pow2_diff divide_right_mono)
  ultimately have "x / pow2 q \<le> of_int (2 ^ nat (k - q))" by simp
  then have "round_even (x / pow2 q) \<le> 2 ^ nat (k - q)" by (rule round_even_le)
  then have "of_int (round_even (x / pow2 q)) \<le> real_of_int (2 ^ nat (k - q))" by linarith
  then have "of_int (round_even (x / pow2 q)) * pow2 q \<le> pow2 (k - q) * pow2 q"
    using qk by (simp add: pow2_int)
  then show ?thesis by (simp add: pow2_add [symmetric] nearest_def q_def)
qed

lemma nearest_err_quantum:
  assumes "0 < x"
  shows "\<bar>nearest x - x\<bar> \<le> pow2 (quantum x) / 2"
proof -
  define q where "q = quantum x"
  have "\<bar>of_int (round_even (x / pow2 q)) - x / pow2 q\<bar> \<le> 1 / 2" by (rule round_even_err)
  then have "\<bar>of_int (round_even (x / pow2 q)) - x / pow2 q\<bar> * pow2 q \<le> 1 / 2 * pow2 q"
    by (rule mult_right_mono) simp
  moreover have "\<bar>of_int (round_even (x / pow2 q)) - x / pow2 q\<bar> * pow2 q
      = \<bar>of_int (round_even (x / pow2 q)) * pow2 q - x\<bar>"
  proof -
    have "\<bar>of_int (round_even (x / pow2 q)) - x / pow2 q\<bar> * pow2 q
        = \<bar>(of_int (round_even (x / pow2 q)) - x / pow2 q) * pow2 q\<bar>"
      by (simp add: abs_mult)
    also have "(of_int (round_even (x / pow2 q)) - x / pow2 q) * pow2 q
        = of_int (round_even (x / pow2 q)) * pow2 q - x"
      by (simp add: field_simps)
    finally show ?thesis .
  qed
  ultimately have "\<bar>of_int (round_even (x / pow2 q)) * pow2 q - x\<bar> \<le> 1 / 2 * pow2 q"
    by (simp only:)
  then show ?thesis by (simp add: nearest_def q_def)
qed

lemma nearest_err:
  assumes "0 < x"
  shows "\<bar>nearest x - x\<bar> \<le> x * pow2 (- 53) + pow2 (- 1075)"
proof (cases "- 1022 \<le> expo x")
  case True
  then have "quantum x = expo x - 52" by (simp add: quantum_def)
  then have "pow2 (quantum x) / 2 = pow2 (expo x) * pow2 (- 53)"
    by (simp add: pow2_add [symmetric] pow2_diff) (simp add: pow2_def)
  also have "\<dots> \<le> x * pow2 (- 53)"
    using expo_bounds(1) [OF assms] by (simp add: mult_right_mono)
  finally show ?thesis using nearest_err_quantum [OF assms] by (simp add: add_increasing2)
next
  case False
  then have "quantum x = - 1074" by (simp add: quantum_def)
  then have "pow2 (quantum x) / 2 = pow2 (- 1075)" by (simp add: pow2_def)
  then show ?thesis using nearest_err_quantum [OF assms] assms by (simp add: add_increasing)
qed


lemma expo_eq:
  assumes "0 < x" "pow2 k \<le> x" "x < pow2 (k + 1)"
  shows "expo x = k"
proof -
  have "pow2 (expo x) < pow2 (k + 1)" using expo_bounds(1) [OF assms(1)] assms(3) by linarith
  moreover have "pow2 k < pow2 (expo x + 1)" using expo_bounds(2) [OF assms(1)] assms(2) by linarith
  ultimately show ?thesis by (simp add: pow2_less_iff)
qed

lemma round_even_gt: "of_int m + 1 / 2 < r \<Longrightarrow> m + 1 \<le> round_even r"
proof -
  assume a: "of_int m + 1 / 2 < r"
  then have f: "m \<le> \<lfloor>r\<rfloor>" by (simp add: le_floor_iff)
  show ?thesis
  proof (cases "\<lfloor>r\<rfloor> = m")
    case True
    then have "1 / 2 < r - of_int \<lfloor>r\<rfloor>" using a by simp
    then show ?thesis using True unfolding round_even_def Let_def by auto
  next
    case False
    with f have "m + 1 \<le> \<lfloor>r\<rfloor>" by simp
    then show ?thesis unfolding round_even_def Let_def by auto
  qed
qed

lemma to_double_0 [simp]: "to_double 0 = Num 0"
  by (simp add: to_double_def)

lemma to_double_pos:
  "0 < x \<Longrightarrow> to_double x = (if pow2 1024 \<le> nearest x then PosInf else Num (nearest x))"
  by (simp add: to_double_def)

lemma to_double_lower:
  assumes "pow2 k \<le> x" "- 1074 \<le> k"
  shows "to_double x = PosInf \<or> (\<exists>y. to_double x = Num y \<and> y = nearest x \<and> pow2 k \<le> y)"
proof -
  have x: "0 < x" using assms(1) pow2_pos [of k] by linarith
  show ?thesis using nearest_ge [OF x assms] by (simp add: to_double_pos [OF x])
qed

lemma to_double_upper:
  assumes "0 < x" "x \<le> pow2 k" "- 1074 \<le> k" "k < 1024"
  shows "to_double x = Num (nearest x) \<and> nearest x \<le> pow2 k"
proof -
  have "nearest x \<le> pow2 k" using assms(1,2,3) by (rule nearest_le)
  moreover have "pow2 k < pow2 1024" using assms(4) by (simp add: pow2_less_iff)
  ultimately show ?thesis by (simp add: to_double_pos [OF assms(1)])
qed

lemma to_double_Num_pos:
  assumes "0 < x" "to_double x = Num y"
  shows "y = nearest x" "0 \<le> y" "y < pow2 1024"
  using assms nearest_nonneg [OF assms(1)] by (auto simp: to_double_pos split: if_splits)

lemma isDouble_pos: "isDouble x \<Longrightarrow> 0 < x \<Longrightarrow> x < pow2 1024"
  using to_double_Num_pos(3) [of x x] by (simp add: isDouble_def)

text \<open>A double below 1 is at most \<open>1 - 2^(-53)\<close>, and the inverse of that rounds above 1.\<close>

lemma nearest_below_one:
  assumes "0 < s" "nearest s < 1"
  shows "nearest s \<le> 1 - pow2 (- 53)"
proof -
  have s1: "s < 1"
  proof (rule ccontr)
    assume "\<not> s < 1"
    then have "pow2 0 \<le> s" by simp
    then have "pow2 0 \<le> nearest s" using assms(1) by (intro nearest_ge) simp_all
    with assms(2) show False by simp
  qed
  have e: "expo s \<le> - 1"
  proof -
    have "pow2 (expo s) < pow2 0" using expo_bounds(1) [OF assms(1)] s1 by simp
    then show ?thesis by (simp only: pow2_less_iff)
  qed
  show ?thesis
  proof (cases "expo s = - 1")
    case True
    then have q: "quantum s = - 53" by (simp add: quantum_def)
    define N where "N = round_even (s / pow2 (- 53))"
    have n: "nearest s = of_int N * pow2 (- 53)" by (simp add: nearest_def q N_def)
    have "of_int N * pow2 (- 53) < 1" using assms(2) n by simp
    then have "real_of_int N < 9007199254740992" by (simp add: pow2_def)
    then have "N < 9007199254740992" by linarith
    then have "N \<le> 9007199254740991" by simp
    then have "real_of_int N \<le> 9007199254740991" by linarith
    then show ?thesis by (simp add: n pow2_def)
  next
    case False
    with e have "expo s + 1 \<le> - 1" by simp
    then have "pow2 (expo s + 1) \<le> pow2 (- 1)" by (simp only: pow2_le_iff)
    then have "s \<le> pow2 (- 1)" using expo_bounds(2) [OF assms(1)] by linarith
    then have "nearest s \<le> pow2 (- 1)" using assms(1) by (intro nearest_le) simp_all
    then show ?thesis by (simp add: pow2_def)
  qed
qed

lemma nearest_above_one:
  assumes "1 + pow2 (- 53) < v"
  shows "1 + pow2 (- 52) \<le> nearest v"
proof (cases "2 \<le> v")
  case True
  then have "pow2 1 \<le> v" by (simp add: pow2_def)
  then have "pow2 1 \<le> nearest v" using True by (intro nearest_ge) simp_all
  then show ?thesis by (simp add: pow2_def)
next
  case False
  have v: "0 < v" "1 \<le> v" using assms pow2_pos [of "- 53"] by linarith+
  have "expo v = 0" using v False by (intro expo_eq) (simp_all add: pow2_def)
  then have q: "quantum v = - 52" by (simp add: quantum_def)
  have "of_int 4503599627370496 + 1 / 2 < v / pow2 (- 52)"
    using assms by (simp add: pow2_def)
  then have "4503599627370496 + 1 \<le> round_even (v / pow2 (- 52))" by (rule round_even_gt)
  then have "real_of_int 4503599627370497 \<le> of_int (round_even (v / pow2 (- 52)))" by linarith
  then show ?thesis by (simp add: nearest_def q pow2_def)
qed


text \<open>
  Rounding leaves the doubles as they are: a positive multiple \<open>N * 2^q\<close> with
  \<open>N < 2^53\<close> and \<open>q\<close> from \<open>-1074\<close> on is its own nearest double.  So every finite
  number that an arithmetic operation returns is a double.
\<close>

lemma round_even_of_int_mult: "0 \<le> k \<Longrightarrow> round_even (of_int N * pow2 k) = N * 2 ^ nat k"
proof -
  assume "0 \<le> k"
  then have "real_of_int N * pow2 k = of_int (N * 2 ^ nat k)" by (simp add: pow2_def)
  then show ?thesis by (simp only: round_even_int)
qed

lemma nearest_grid:
  assumes "0 < N" "N < 2 ^ 53" "- 1074 \<le> q"
  shows "nearest (of_int N * pow2 q) = of_int N * pow2 q"
proof -
  define y where "y = real_of_int N * pow2 q"
  have y: "0 < y" using assms(1) by (simp add: y_def)
  have "real_of_int N < real_of_int (2 ^ 53)" using assms(2) by linarith
  then have "real_of_int N < pow2 53" by (simp add: pow2_def)
  then have "y < pow2 53 * pow2 q" unfolding y_def by (intro mult_strict_right_mono) simp_all
  then have "y < pow2 (53 + q)" by (simp add: pow2_add)
  then have "pow2 (expo y) < pow2 (53 + q)" using expo_bounds(1) [OF y] by linarith
  then have "expo y < 53 + q" by (simp only: pow2_less_iff)
  then have qq: "quantum y \<le> q" using assms(3) by (simp add: quantum_def)
  define k where "k = q - quantum y"
  have k: "0 \<le> k" using qq by (simp add: k_def)
  have "y / pow2 (quantum y) = of_int N * pow2 k"
    by (simp add: y_def k_def pow2_diff)
  then have "round_even (y / pow2 (quantum y)) = N * 2 ^ nat k"
    using round_even_of_int_mult [OF k, of N] by simp
  then have "nearest y = of_int (N * 2 ^ nat k) * pow2 (quantum y)" by (simp add: nearest_def)
  also have "\<dots> = of_int N * (pow2 k * pow2 (quantum y))" using k by (simp add: pow2_def)
  also have "pow2 k * pow2 (quantum y) = pow2 q" by (simp add: pow2_add [symmetric] k_def)
  finally show ?thesis by (simp add: y_def)
qed

lemma nearest_idem:
  assumes "0 < x"
  shows "nearest x = 0 \<or> nearest (nearest x) = nearest x"
proof -
  define q where "q = quantum x"
  define N where "N = round_even (x / pow2 q)"
  have n: "nearest x = of_int N * pow2 q" by (simp add: nearest_def q_def N_def)
  have q: "- 1074 \<le> q" by (simp add: q_def quantum_def)
  have N0: "0 \<le> N" unfolding N_def using assms by (intro round_even_ge) simp
  have "expo x + 1 - q \<le> 53" by (simp add: q_def quantum_def)
  then have "pow2 (expo x + 1 - q) \<le> pow2 53" by (simp only: pow2_le_iff)
  moreover have "x / pow2 q < pow2 (expo x + 1 - q)"
    using expo_bounds(2) [OF assms] by (simp add: pow2_diff divide_strict_right_mono)
  ultimately have "x / pow2 q \<le> of_int (2 ^ 53)" by (simp add: pow2_def)
  then have N53: "N \<le> 2 ^ 53" unfolding N_def by (rule round_even_le)
  consider "N = 0" | "0 < N" "N < 2 ^ 53" | "N = 2 ^ 53" using N0 N53 by linarith
  then show ?thesis
  proof cases
    case 1
    then show ?thesis by (simp add: n)
  next
    case 2
    then show ?thesis using q unfolding n by (intro disjI2 nearest_grid)
  next
    case 3
    have "real_of_int N * pow2 q = of_int (2 ^ 52) * pow2 (q + 1)"
      by (simp add: 3 pow2_add) (simp add: pow2_def)
    moreover have "nearest (of_int (2 ^ 52) * pow2 (q + 1)) = of_int (2 ^ 52) * pow2 (q + 1)"
      using q by (intro nearest_grid) simp_all
    ultimately show ?thesis by (simp add: n)
  qed
qed

lemma to_double_isDouble:
  assumes "to_double x = Num y"
  shows "isDouble y"
proof (cases "y = 0")
  case True
  then show ?thesis by (simp add: isDouble_def)
next
  case False
  with assms have x: "x \<noteq> 0" by auto
  define a where "a = \<bar>x\<bar>"
  have a: "0 < a" using x by (simp add: a_def)
  from assms x have y: "y = sgn x * nearest a" "nearest a < pow2 1024"
    by (auto simp: to_double_def a_def not_le split: if_splits)
  from False y(1) have n0: "nearest a \<noteq> 0" by auto
  with nearest_idem [OF a] have idem: "nearest (nearest a) = nearest a" by simp
  have pos: "0 < nearest a" using nearest_nonneg [OF a] n0 by simp
  have ay: "\<bar>y\<bar> = nearest a" using pos x by (simp add: y(1) abs_mult)
  have sy: "sgn y = sgn x" using pos x by (simp add: y(1) sgn_mult)
  have 1: "to_double y = Num (sgn y * nearest \<bar>y\<bar>)"
    using False y(2) by (simp add: to_double_def ay idem)
  have 2: "sgn y * nearest \<bar>y\<bar> = y" unfolding ay sy idem by (rule y(1) [symmetric])
  show ?thesis by (simp only: isDouble_def 1 2)
qed

lemma jsNumber_to_double: "jsNumber (to_double x)"
  by (cases "to_double x") (simp_all add: jsNumber_def to_double_isDouble)

lemma isDouble_0: "isDouble 0"
  by (simp add: isDouble_def)

lemma jsNumber_arith:
  "jsNumber (js_add a b)" "jsNumber (js_sub a b)" "jsNumber (js_mul a b)" "jsNumber (js_div a b)"
proof -
  have n: "jsNumber PosInf" "jsNumber NegInf" "jsNumber NaN" "jsNumber (Num 0)"
    by (simp_all add: jsNumber_def isDouble_0)
  show add: "jsNumber (js_add a b)" for a b
    by (cases a; cases b) (simp_all add: n jsNumber_to_double)
  show "jsNumber (js_sub a b)" unfolding js_sub_def by (rule add)
  show "jsNumber (js_mul a b)"
    by (cases a; cases b) (simp_all add: n jsNumber_to_double)
  show "jsNumber (js_div a b)"
    by (cases a; cases b) (simp_all add: n jsNumber_to_double)
qed

lemma jsNumber_toFixed2: "jsNumber x \<Longrightarrow> jsNumber (toFixed2 x)"
  by (cases x) (simp_all add: jsNumber_to_double)

section \<open>Properties of the calculator\<close>

lemma foldl_pair:
  "foldl (\<lambda>(a, b) x. (f a x, g b x)) (a0, b0) xs = (foldl f a0 xs, foldl g b0 xs)"
  by (induction xs arbitrary: a0 b0) auto

lemma foldl_triple:
  "foldl (\<lambda>(a, b, c) x. (f a x, g b x, h c x)) (a0, b0, c0) xs
     = (foldl f a0 xs, foldl g b0 xs, foldl h c0 xs)"
  by (induction xs arbitrary: a0 b0 c0) auto

lemma bestOdds2Way_eq:
  "bestOdds2Way odds = (foldl (better odds1) noBest odds, foldl (better odds2) noBest odds)"
  unfolding bestOdds2Way_def by (rule foldl_pair)

lemma bestOdds3Way_eq:
  "bestOdds3Way odds =
     (foldl (better odds1) noBest odds, foldl (better odds2) noBest odds,
      foldl betterDraw noBest odds)"
  unfolding bestOdds3Way_def by (rule foldl_triple)

text \<open>A price that JavaScript finds greater than 0: a positive finite number or Infinity.\<close>

lemma js_gt_0_iff: "js_gt x (Num 0) \<longleftrightarrow> (\<exists>m. x = Num m \<and> 0 < m) \<or> x = PosInf"
  by (cases x) auto

lemma js_gt_trans: "js_gt x y \<Longrightarrow> js_gt y z \<Longrightarrow> js_gt x z"
  by (cases x; cases y; cases z) auto

lemma better_ok: "okBest b \<Longrightarrow> okBest (better f b q)"
  by (auto simp: okBest_def better_def selected_def noBest_def intro: js_gt_trans)

lemma betterDraw_ok: "okBest b \<Longrightarrow> okBest (betterDraw b q)"
  by (auto simp: betterDraw_def okBest_def selected_def noBest_def split: option.splits
      intro: js_gt_trans)

lemma fold_better_ok: "okBest b \<Longrightarrow> okBest (foldl (better f) b xs)"
  by (induction xs arbitrary: b) (auto simp: better_ok)

lemma fold_betterDraw_ok: "okBest b \<Longrightarrow> okBest (foldl betterDraw b xs)"
  by (induction xs arbitrary: b) (auto simp: betterDraw_ok)

lemma fold_better_mem:
  "foldl (better f) b xs = b \<or>
   (\<exists>q \<in> set xs. foldl (better f) b xs = \<lparr>best_odds = f q, best_bookmaker = Some (bookmaker q)\<rparr>
       \<and> js_gt (f q) (best_odds b))"
proof (induction xs arbitrary: b)
  case Nil
  then show ?case by simp
next
  case (Cons x xs)
  show ?case
  proof (cases "js_gt (f x) (best_odds b)")
    case True
    then have b': "better f b x = \<lparr>best_odds = f x, best_bookmaker = Some (bookmaker x)\<rparr>"
      by (simp add: better_def)
    from Cons.IH[of "better f b x"] show ?thesis
    proof
      assume "foldl (better f) (better f b x) xs = better f b x"
      with b' True show ?thesis by auto
    next
      assume "\<exists>q\<in>set xs. foldl (better f) (better f b x) xs = \<lparr>best_odds = f q, best_bookmaker = Some (bookmaker q)\<rparr>
         \<and> js_gt (f q) (best_odds (better f b x))"
      then obtain q where q: "q \<in> set xs"
        "foldl (better f) (better f b x) xs = \<lparr>best_odds = f q, best_bookmaker = Some (bookmaker q)\<rparr>"
        "js_gt (f q) (best_odds (better f b x))" by blast
      from q(3) b' True have "js_gt (f q) (best_odds b)" by (auto intro: js_gt_trans)
      with q show ?thesis by auto
    qed
  next
    case False
    then have "better f b x = b" by (simp add: better_def)
    with Cons.IH[of b] show ?thesis by auto
  qed
qed

lemma js_gt_irrefl: "\<not> js_gt x x"
  by (cases x) auto

text \<open>No quote has a price greater than the running best that the loop ends with.\<close>

lemma fold_better_greatest:
  "(\<forall>q\<in>set xs. \<not> js_gt (f q) (best_odds (foldl (better f) b xs)))
   \<and> \<not> js_gt (best_odds b) (best_odds (foldl (better f) b xs))"
proof (induction xs arbitrary: b)
  case Nil
  show ?case by (simp add: js_gt_irrefl)
next
  case (Cons x xs)
  let ?m = "best_odds (foldl (better f) (better f b x) xs)"
  note IH = Cons.IH [of "better f b x"]
  show ?case
  proof (cases "js_gt (f x) (best_odds b)")
    case True
    then have b': "best_odds (better f b x) = f x" by (simp add: better_def)
    have 1: "\<not> js_gt (f x) ?m" using IH b' by simp
    have 2: "\<not> js_gt (best_odds b) ?m" using 1 True by (blast intro: js_gt_trans)
    show ?thesis using IH 1 2 by simp
  next
    case False
    then have b': "better f b x = b" by (simp add: better_def)
    have 2: "\<not> js_gt (best_odds b) ?m" using IH b' by simp
    have "?m = best_odds b \<or> js_gt ?m (best_odds b)"
      using fold_better_mem [of f b xs] b' by auto
    then have 1: "\<not> js_gt (f x) ?m" using False by (auto intro: js_gt_trans)
    show ?thesis using IH 1 2 by simp
  qed
qed

text \<open>The best price in the specification's words: a valid price that no price exceeds.\<close>

lemma spec_bestPrice_None:
  "spec_bestPrice ps = None \<longleftrightarrow> (\<forall>p\<in>set ps. \<not> js_gt p (Num 0))"
  by (auto simp: spec_bestPrice_def Let_def filter_empty_conv)

lemma spec_bestPrice_Some:
  assumes "spec_bestPrice ps = Some v"
  shows "v \<in> set ps" "js_gt v (Num 0)" "\<forall>p\<in>set ps. \<not> js_gt p v"
proof -
  define vs where "vs = filter (\<lambda>p. js_gt p (Num 0)) ps"
  define xs where "xs = [x. Num x \<leftarrow> vs]"
  have sp: "spec_bestPrice ps =
      (if vs = [] then None else if PosInf \<in> set vs then Some PosInf else Some (Num (Max (set xs))))"
    by (simp add: spec_bestPrice_def Let_def vs_def xs_def)
  from assms have ne: "vs \<noteq> []" by (auto simp: sp split: if_splits)
  have vs: "p \<in> set vs \<longleftrightarrow> p \<in> set ps \<and> js_gt p (Num 0)" for p by (simp add: vs_def)
  have xs: "x \<in> set xs \<longleftrightarrow> Num x \<in> set ps \<and> 0 < x" for x by (auto simp: xs_def vs_def)
  have "v \<in> set ps \<and> js_gt v (Num 0) \<and> (\<forall>p\<in>set ps. \<not> js_gt p v)"
  proof (cases "PosInf \<in> set vs")
    case True
    with assms ne have "v = PosInf" by (simp add: sp)
    moreover have "\<not> js_gt p PosInf" for p by (cases p) auto
    ultimately show ?thesis using True vs by simp
  next
    case False
    with assms ne have v: "v = Num (Max (set xs))" by (simp add: sp)
    from ne obtain p where p: "p \<in> set vs" by (cases vs) auto
    then have p': "p \<in> set ps" "js_gt p (Num 0)" "p \<noteq> PosInf" using vs False by auto
    obtain x where "p = Num x" "0 < x" using p'(2,3) by (cases p) auto
    with p'(1) have "x \<in> set xs" by (simp add: xs)
    then have "set xs \<noteq> {}" by auto
    then have "Max (set xs) \<in> set xs" by (intro Max_in) auto
    then have 1: "Num (Max (set xs)) \<in> set ps" "0 < Max (set xs)" by (simp_all add: xs)
    have 2: "\<not> js_gt p (Num (Max (set xs)))" if "p \<in> set ps" for p
    proof
      assume gt: "js_gt p (Num (Max (set xs)))"
      then have g0: "js_gt p (Num 0)" using 1(2) by (cases p) auto
      with that have "p \<in> set vs" by (simp add: vs)
      with False have "p \<noteq> PosInf" by auto
      then obtain x where x: "p = Num x" "0 < x" using g0 by (cases p) auto
      with that have "x \<in> set xs" by (simp add: xs)
      then have "x \<le> Max (set xs)" by (intro Max_ge) auto
      with gt x show False by simp
    qed
    show ?thesis using v 1 2 by simp
  qed
  then show "v \<in> set ps" "js_gt v (Num 0)" "\<forall>p\<in>set ps. \<not> js_gt p v" by simp_all
qed

lemma greatest_unique:
  assumes "js_gt v (Num 0)" "js_gt m (Num 0)" "\<not> js_gt v m" "\<not> js_gt m v"
  shows "m = v"
  using assms by (cases v; cases m) auto

lemma best1_spec:
  "best_odds (foldl (better f) noBest odds) =
     (case spec_bestPrice (map f odds) of None \<Rightarrow> Num 0 | Some v \<Rightarrow> v)"
proof -
  let ?m = "best_odds (foldl (better f) noBest odds)"
  have mem: "?m = Num 0 \<or> (?m \<in> set (map f odds) \<and> js_gt ?m (Num 0))"
    using fold_better_mem [of f noBest odds] by (auto simp: noBest_def)
  have gr: "\<forall>p\<in>set (map f odds). \<not> js_gt p ?m"
    using fold_better_greatest [of odds f noBest] by simp
  show ?thesis
  proof (cases "spec_bestPrice (map f odds)")
    case None
    then have "\<forall>p\<in>set (map f odds). \<not> js_gt p (Num 0)" by (simp only: spec_bestPrice_None)
    with mem have "?m = Num 0" by blast
    with None show ?thesis by simp
  next
    case (Some v)
    note v = spec_bestPrice_Some [OF Some]
    from v(1) gr have 1: "\<not> js_gt v ?m" by blast
    with v(2) have "?m \<noteq> Num 0" by auto
    with mem have m: "?m \<in> set (map f odds)" "js_gt ?m (Num 0)" by blast+
    from m(1) v(3) have 2: "\<not> js_gt ?m v" by blast
    have "?m = v" using v(2) m(2) 1 2 by (rule greatest_unique)
    with Some show ?thesis by simp
  qed
qed

text \<open>
  The draw prices: on a running best that is not negative, the test
  \<open>odd.draw_odds && odd.draw_odds > bestDraw.odds\<close> is the comparison alone, with \<open>null\<close>
  comparing like \<open>NaN\<close>.
\<close>

lemma betterDraw_better:
  assumes "ge0 (best_odds b)"
  shows "betterDraw b q = better (\<lambda>q. case draw_odds q of None \<Rightarrow> NaN | Some d \<Rightarrow> d) b q"
proof (cases "draw_odds q")
  case None
  then show ?thesis by (simp add: betterDraw_def better_def)
next
  case (Some d)
  have "js_gt d (best_odds b) \<Longrightarrow> truthy (Some d)"
    using assms by (cases d) (auto simp: ge0_def)
  with Some show ?thesis by (auto simp: betterDraw_def better_def)
qed

lemma okBest_ge0: "okBest b \<Longrightarrow> ge0 (best_odds b)"
  by (auto simp: okBest_def selected_def noBest_def ge0_def js_gt_0_iff)

lemma fold_betterDraw_better:
  "okBest b \<Longrightarrow>
   foldl betterDraw b xs = foldl (better (\<lambda>q. case draw_odds q of None \<Rightarrow> NaN | Some d \<Rightarrow> d)) b xs"
proof (induction xs arbitrary: b)
  case Nil
  show ?case by simp
next
  case (Cons x xs)
  have 1: "betterDraw b x = better (\<lambda>q. case draw_odds q of None \<Rightarrow> NaN | Some d \<Rightarrow> d) b x"
    using Cons.prems by (intro betterDraw_better okBest_ge0)
  have 2: "okBest (betterDraw b x)" using Cons.prems by (rule betterDraw_ok)
  show ?case using Cons.IH [OF 2] 1 by simp
qed

lemma spec_bestPrice_filter:
  "filter (\<lambda>p. js_gt p (Num 0)) ps = filter (\<lambda>p. js_gt p (Num 0)) ps' \<Longrightarrow>
   spec_bestPrice ps = spec_bestPrice ps'"
  by (simp add: spec_bestPrice_def)

lemma draws_filter:
  "filter (\<lambda>p. js_gt p (Num 0)) (map (\<lambda>q. case draw_odds q of None \<Rightarrow> NaN | Some d \<Rightarrow> d) odds)
     = filter (\<lambda>p. js_gt p (Num 0)) [d. Some d \<leftarrow> map draw_odds odds]"
proof (induction odds)
  case Nil
  show ?case by simp
next
  case (Cons q qs)
  then show ?case by (cases "draw_odds q") simp_all
qed

lemma okBest_noBest: "okBest noBest"
  by (simp add: okBest_def)

lemma bestDraw_spec:
  "best_odds (foldl betterDraw noBest odds) =
     (case spec_bestPrice [d. Some d \<leftarrow> map draw_odds odds] of None \<Rightarrow> Num 0 | Some v \<Rightarrow> v)"
  using best1_spec [of "\<lambda>q. case draw_odds q of None \<Rightarrow> NaN | Some d \<Rightarrow> d" odds]
    spec_bestPrice_filter [OF draws_filter, of odds]
  by (simp add: fold_betterDraw_better [OF okBest_noBest])


lemma ge0_to_double: "0 \<le> x \<Longrightarrow> ge0 (to_double x)"
proof (cases "x = 0")
  case True
  then show ?thesis by (simp add: ge0_def)
next
  case False
  assume "0 \<le> x"
  with False have x: "0 < x" by simp
  show ?thesis using nearest_nonneg [OF x] by (simp add: to_double_pos [OF x] ge0_def)
qed

lemma ge0_inverse: "ge0 x \<Longrightarrow> ge0 (js_div (Num 1) x)"
proof -
  assume "ge0 x"
  then consider m where "x = Num m" "0 \<le> m" | "x = PosInf" by (auto simp: ge0_def)
  then show ?thesis
  proof cases
    case 1
    then show ?thesis
      by (cases "m = 0") (simp_all add: ge0_to_double, simp add: ge0_def)
  next
    case 2
    then show ?thesis by (simp add: ge0_def)
  qed
qed

lemma ge0_add: "ge0 x \<Longrightarrow> ge0 y \<Longrightarrow> ge0 (js_add x y)"
proof -
  assume "ge0 x" "ge0 y"
  then consider a b where "x = Num a" "y = Num b" "0 \<le> a" "0 \<le> b"
    | "x = PosInf" | "y = PosInf" by (auto simp: ge0_def)
  then show ?thesis
  proof cases
    case 1
    then show ?thesis by (simp add: ge0_to_double)
  next
    case 2
    with \<open>ge0 y\<close> show ?thesis by (auto simp: ge0_def)
  next
    case 3
    with \<open>ge0 x\<close> show ?thesis by (auto simp: ge0_def)
  qed
qed

lemma ge0_below_one: "ge0 t \<Longrightarrow> \<not> js_ge t (Num 1) \<Longrightarrow> \<exists>r. t = Num r \<and> 0 \<le> r \<and> r < 1"
  by (auto simp: ge0_def)

lemma ge0_below_one_iff: "ge0 t \<Longrightarrow> js_gt (Num 1) t \<longleftrightarrow> \<not> js_ge t (Num 1)"
  by (auto simp: ge0_def)

text \<open>A real from 1 on rounds to a double from 1 on.\<close>

lemma to_double_ge_one: "1 \<le> x \<Longrightarrow> js_ge (to_double x) (Num 1)"
  using to_double_lower [of 0 x] by auto

lemma inverse_below_one:
  assumes "ge0 x" "js_div (Num 1) x = Num p" "p < 1"
  shows "js_gt x (Num 1)"
proof -
  from assms(1) consider m where "x = Num m" "0 \<le> m" | "x = PosInf" by (auto simp: ge0_def)
  then show ?thesis
  proof cases
    case 1
    show ?thesis
    proof (rule ccontr)
      assume "\<not> js_gt x (Num 1)"
      with 1 have m1: "m \<le> 1" by simp
      from assms(2) 1 have m0: "m \<noteq> 0" by auto
      with 1 m1 have "1 \<le> 1 / m" by simp
      then have "js_ge (to_double (1 / m)) (Num 1)" by (rule to_double_ge_one)
      with assms(2,3) 1 m0 show False by simp
    qed
  next
    case 2
    then show ?thesis by simp
  qed
qed

lemma ge0_add_Num:
  assumes "ge0 x" "ge0 y" "js_add x y = Num r" "r < 1"
  shows "\<exists>p q. x = Num p \<and> y = Num q \<and> 0 \<le> p \<and> 0 \<le> q \<and> p < 1 \<and> q < 1
           \<and> to_double (p + q) = Num r"
proof -
  from assms(1,2,3) obtain p q where pq: "x = Num p" "y = Num q" "0 \<le> p" "0 \<le> q"
    by (auto simp: ge0_def)
  with assms(3) have t: "to_double (p + q) = Num r" by simp
  have "p < 1"
  proof (rule ccontr)
    assume "\<not> p < 1"
    with pq(4) have "1 \<le> p + q" by simp
    then have "js_ge (to_double (p + q)) (Num 1)" by (rule to_double_ge_one)
    with t assms(4) show False by simp
  qed
  moreover have "q < 1"
  proof (rule ccontr)
    assume "\<not> q < 1"
    with pq(3) have "1 \<le> p + q" by simp
    then have "js_ge (to_double (p + q)) (Num 1)" by (rule to_double_ge_one)
    with t assms(4) show False by simp
  qed
  ultimately show ?thesis using pq t by blast
qed

lemma bests2_ok: "bestOdds2Way odds = (b1, b2) \<Longrightarrow> okBest b1 \<and> okBest b2"
  using fold_better_ok[OF okBest_noBest, of odds1 odds] fold_better_ok[OF okBest_noBest, of odds2 odds]
  by (simp add: bestOdds2Way_eq)

lemma bests3_ok: "bestOdds3Way odds = (b1, b2, b3) \<Longrightarrow> okBest b1 \<and> okBest b2 \<and> okBest b3"
  using fold_better_ok[OF okBest_noBest, of odds1 odds] fold_better_ok[OF okBest_noBest, of odds2 odds]
    fold_betterDraw_ok[OF okBest_noBest, of odds]
  by (simp add: bestOdds3Way_eq)

text \<open>
  A total below 1 is at most \<open>1 - 2^(-53)\<close>, the greatest double below 1, and the profit
  computed from it, before rounding, is greater than 0.
\<close>

lemma to_double_below_one:
  assumes "0 \<le> s" "to_double s = Num r" "r < 1"
  shows "r \<le> 1 - pow2 (- 53)"
proof (cases "s = 0")
  case True
  with assms(2) show ?thesis by (simp add: pow2_def)
next
  case False
  with assms(1) have s: "0 < s" by simp
  from to_double_Num_pos(1) [OF s assms(2)] have "r = nearest s" .
  with assms(3) nearest_below_one [OF s] show ?thesis by simp
qed

lemma to_double_pos_gt:
  assumes "pow2 k \<le> x" "- 1074 \<le> k"
  shows "js_gt (to_double x) (Num 0)"
  using to_double_lower [OF assms] less_le_trans [OF pow2_pos [of k]] by auto

lemma profit_pos:
  assumes "0 \<le> r" "r \<le> 1 - pow2 (- 53)"
  shows "js_gt (js_mul (js_sub (js_div (Num 1) (Num r)) (Num 1)) (Num 100)) (Num 0)"
proof (cases "r = 0")
  case True
  then show ?thesis by (simp add: js_sub_def)
next
  case False
  with assms(1) have r: "0 < r" by simp
  have "1 + pow2 (- 53) < 1 / r"
  proof -
    have "r * (1 + pow2 (- 53)) \<le> (1 - pow2 (- 53)) * (1 + pow2 (- 53))"
      using assms(2) by (intro mult_right_mono) (simp_all add: pow2_def)
    also have "\<dots> < 1" by (simp add: pow2_def)
    finally show ?thesis using r by (simp add: field_simps)
  qed
  then have w: "1 + pow2 (- 52) \<le> nearest (1 / r)" by (rule nearest_above_one)
  have d: "js_div (Num 1) (Num r) = to_double (1 / r)" using r by simp
  have r': "0 < 1 / r" using r by simp
  show ?thesis
  proof (cases "pow2 1024 \<le> nearest (1 / r)")
    case True
    then show ?thesis by (simp add: d to_double_pos [OF r'] js_sub_def)
  next
    case False
    then have d': "js_div (Num 1) (Num r) = Num (nearest (1 / r))"
      using r by (simp add: to_double_pos [OF r'])
    have 1: "pow2 (- 52) \<le> nearest (1 / r) + - 1" using w by simp
    have g: "js_mul (js_sub (js_div (Num 1) (Num r)) (Num 1)) (Num 100)
        = js_mul (to_double (nearest (1 / r) + - 1)) (Num 100)"
      by (simp only: d' js_sub_def js_neg.simps js_add.simps)
    have "to_double (nearest (1 / r) + - 1) = PosInf
        \<or> (\<exists>y. to_double (nearest (1 / r) + - 1) = Num y \<and> pow2 (- 52) \<le> y)"
      using to_double_lower [OF 1] by auto
    then show ?thesis
    proof (elim disjE exE conjE)
      assume "to_double (nearest (1 / r) + - 1) = PosInf"
      then show ?thesis by (simp only: g) simp
    next
      fix y assume y: "to_double (nearest (1 / r) + - 1) = Num y" "pow2 (- 52) \<le> y"
      have "pow2 (- 52) \<le> y * 100" using y(2) pow2_pos [of "- 52"] by linarith
      then have "js_gt (to_double (y * 100)) (Num 0)" by (rule to_double_pos_gt) simp
      then show ?thesis using y(1) by (simp only: g) simp
    qed
  qed
qed

lemma round2_nonneg: "0 \<le> x \<Longrightarrow> 0 \<le> round2 x"
  by (simp add: round2_def sgn_if)

lemma ge0_js_ge: "ge0 x \<Longrightarrow> js_ge x (Num 0)"
  by (auto simp: ge0_def)

lemma toFixed2_nonneg: "js_gt x (Num 0) \<Longrightarrow> js_ge (toFixed2 x) (Num 0)"
  by (cases x) (auto simp: round2_nonneg ge0_to_double ge0_js_ge)

text \<open>The shape of every result of the two calculators.\<close>

lemma calc2_Some:
  assumes "calculate2WayArbitrage odds = Inr (Some opp)"
  obtains b1 b2 r q qs where "bestOdds2Way odds = (b1, b2)" "odds = q # qs"
    "js_add (js_div (Num 1) (best_odds b1)) (js_div (Num 1) (best_odds b2)) = Num r"
    "0 \<le> r" "r < 1"
    "opp = \<lparr>exists_flag = True,
       profit_percentage = toFixed2 (js_mul (js_sub (js_div (Num 1) (Num r)) (Num 1)) (Num 100)),
       bets = [\<lparr>outcome = team1 q, bet_bookmaker = best_bookmaker b1, bet_odds = best_odds b1,
                 stake_pct = toFixed2 (js_mul (js_div (js_div (Num 1) (best_odds b1)) (Num r)) (Num 100))\<rparr>,
               \<lparr>outcome = team2 q, bet_bookmaker = best_bookmaker b2, bet_odds = best_odds b2,
                 stake_pct = toFixed2 (js_mul (js_div (js_div (Num 1) (best_odds b2)) (Num r)) (Num 100))\<rparr>]\<rparr>"
proof -
  obtain b1 b2 where b: "bestOdds2Way odds = (b1, b2)" by (cases "bestOdds2Way odds")
  let ?t = "js_add (js_div (Num 1) (best_odds b1)) (js_div (Num 1) (best_odds b2))"
  from assms b have nge: "\<not> js_ge ?t (Num 1)"
    by (auto simp: calculate2WayArbitrage_def Let_def split: if_splits)
  have "ge0 ?t" using bests2_ok[OF b] by (simp add: ge0_add ge0_inverse okBest_ge0)
  from ge0_below_one[OF this nge] obtain r where r: "?t = Num r" "0 \<le> r" "r < 1" by blast
  from assms b nge obtain q qs where q: "odds = q # qs"
    by (cases odds) (auto simp: calculate2WayArbitrage_def Let_def)
  have "opp = \<lparr>exists_flag = True,
       profit_percentage = toFixed2 (js_mul (js_sub (js_div (Num 1) (Num r)) (Num 1)) (Num 100)),
       bets = [\<lparr>outcome = team1 q, bet_bookmaker = best_bookmaker b1, bet_odds = best_odds b1,
                 stake_pct = toFixed2 (js_mul (js_div (js_div (Num 1) (best_odds b1)) (Num r)) (Num 100))\<rparr>,
               \<lparr>outcome = team2 q, bet_bookmaker = best_bookmaker b2, bet_odds = best_odds b2,
                 stake_pct = toFixed2 (js_mul (js_div (js_div (Num 1) (best_odds b2)) (Num r)) (Num 100))\<rparr>]\<rparr>"
    using assms b nge q r(1)
    by (simp add: calculate2WayArbitrage_def Let_def del: toFixed2.simps js_div.simps js_mul.simps)
  with b q r show ?thesis using that by blast
qed

lemma calc3_Some:
  assumes "calculate3WayArbitrage odds = Inr (Some opp)"
  obtains b1 b2 b3 r q qs where "bestOdds3Way odds = (b1, b2, b3)" "odds = q # qs"
    "js_add (js_add (js_div (Num 1) (best_odds b1)) (js_div (Num 1) (best_odds b2)))
       (js_div (Num 1) (best_odds b3)) = Num r"
    "0 \<le> r" "r < 1"
    "opp = \<lparr>exists_flag = True,
       profit_percentage = toFixed2 (js_mul (js_sub (js_div (Num 1) (Num r)) (Num 1)) (Num 100)),
       bets = [\<lparr>outcome = team1 q, bet_bookmaker = best_bookmaker b1, bet_odds = best_odds b1,
                 stake_pct = toFixed2 (js_mul (js_div (js_div (Num 1) (best_odds b1)) (Num r)) (Num 100))\<rparr>,
               \<lparr>outcome = ''Draw'', bet_bookmaker = best_bookmaker b3, bet_odds = best_odds b3,
                 stake_pct = toFixed2 (js_mul (js_div (js_div (Num 1) (best_odds b3)) (Num r)) (Num 100))\<rparr>,
               \<lparr>outcome = team2 q, bet_bookmaker = best_bookmaker b2, bet_odds = best_odds b2,
                 stake_pct = toFixed2 (js_mul (js_div (js_div (Num 1) (best_odds b2)) (Num r)) (Num 100))\<rparr>]\<rparr>"
proof -
  obtain b1 b2 b3 where b: "bestOdds3Way odds = (b1, b2, b3)"
    by (cases "bestOdds3Way odds") auto
  let ?t = "js_add (js_add (js_div (Num 1) (best_odds b1)) (js_div (Num 1) (best_odds b2)))
       (js_div (Num 1) (best_odds b3))"
  from assms b have nz: "best_odds b1 \<noteq> Num 0" "best_odds b2 \<noteq> Num 0" "best_odds b3 \<noteq> Num 0"
    by (auto simp: calculate3WayArbitrage_def Let_def split: if_splits)
  from assms b nz have nge: "\<not> js_ge ?t (Num 1)"
    by (auto simp: calculate3WayArbitrage_def Let_def split: if_splits)
  have "ge0 ?t" using bests3_ok[OF b] by (simp add: ge0_add ge0_inverse okBest_ge0)
  from ge0_below_one[OF this nge] obtain r where r: "?t = Num r" "0 \<le> r" "r < 1" by blast
  from assms b nge nz obtain q qs where q: "odds = q # qs"
    by (cases odds) (auto simp: calculate3WayArbitrage_def Let_def)
  have "opp = \<lparr>exists_flag = True,
       profit_percentage = toFixed2 (js_mul (js_sub (js_div (Num 1) (Num r)) (Num 1)) (Num 100)),
       bets = [\<lparr>outcome = team1 q, bet_bookmaker = best_bookmaker b1, bet_odds = best_odds b1,
                 stake_pct = toFixed2 (js_mul (js_div (js_div (Num 1) (best_odds b1)) (Num r)) (Num 100))\<rparr>,
               \<lparr>outcome = ''Draw'', bet_bookmaker = best_bookmaker b3, bet_odds = best_odds b3,
                 stake_pct = toFixed2 (js_mul (js_div (js_div (Num 1) (best_odds b3)) (Num r)) (Num 100))\<rparr>,
               \<lparr>outcome = team2 q, bet_bookmaker = best_bookmaker b2, bet_odds = best_odds b2,
                 stake_pct = toFixed2 (js_mul (js_div (js_div (Num 1) (best_odds b2)) (Num r)) (Num 100))\<rparr>]\<rparr>"
    using assms b nge nz q r(1)
    by (simp add: calculate3WayArbitrage_def Let_def del: toFixed2.simps js_div.simps js_mul.simps)
  with b q r show ?thesis using that by blast
qed

lemma calculateArbitrage_branch:
  assumes "calculateArbitrage odds = Inr (Some opp)"
  shows "hasDrawOdds odds \<and> calculate3WayArbitrage odds = Inr (Some opp)
    \<or> \<not> hasDrawOdds odds \<and> calculate2WayArbitrage odds = Inr (Some opp)"
  using assms by (auto simp: calculateArbitrage_def split: if_splits)

lemma calculateArbitrage_Some:
  "calculateArbitrage odds = Inr (Some opp) \<Longrightarrow>
   calculate2WayArbitrage odds = Inr (Some opp) \<or> calculate3WayArbitrage odds = Inr (Some opp)"
  by (auto simp: calculateArbitrage_def split: if_splits)

text \<open>Every leg of a result carries a price above 1.\<close>

lemma legs_above_one_2:
  assumes "ge0 x" "ge0 y" "js_add (js_div (Num 1) x) (js_div (Num 1) y) = Num r" "r < 1"
  shows "js_gt x (Num 1) \<and> js_gt y (Num 1)"
proof -
  from ge0_add_Num[OF ge0_inverse[OF assms(1)] ge0_inverse[OF assms(2)] assms(3,4)]
  obtain p q where pq: "js_div (Num 1) x = Num p" "js_div (Num 1) y = Num q" "p < 1" "q < 1"
    by blast
  then show ?thesis using assms(1,2) by (auto intro: inverse_below_one)
qed

lemma legs_above_one_3:
  assumes "ge0 x" "ge0 y" "ge0 z"
    "js_add (js_add (js_div (Num 1) x) (js_div (Num 1) y)) (js_div (Num 1) z) = Num r" "r < 1"
  shows "js_gt x (Num 1) \<and> js_gt y (Num 1) \<and> js_gt z (Num 1)"
proof -
  have g: "ge0 (js_add (js_div (Num 1) x) (js_div (Num 1) y))"
    using assms(1,2) by (simp add: ge0_add ge0_inverse)
  from ge0_add_Num[OF g ge0_inverse[OF assms(3)] assms(4,5)]
  obtain s q where sq: "js_add (js_div (Num 1) x) (js_div (Num 1) y) = Num s"
    "js_div (Num 1) z = Num q" "s < 1" "q < 1" by blast
  with legs_above_one_2[OF assms(1,2) sq(1)] inverse_below_one[OF assms(3) sq(2)]
  show ?thesis by simp
qed

lemma legs_above_one:
  assumes "calculateArbitrage odds = Inr (Some opp)"
  shows "list_all (\<lambda>leg. js_gt (bet_odds leg) (Num 1)) (bets opp)"
  using calculateArbitrage_Some[OF assms]
proof
  assume "calculate2WayArbitrage odds = Inr (Some opp)"
  then show ?thesis
  proof (rule calc2_Some)
    fix b1 b2 r q qs
    assume b: "bestOdds2Way odds = (b1, b2)"
      and t: "js_add (js_div (Num 1) (best_odds b1)) (js_div (Num 1) (best_odds b2)) = Num r"
      and r: "r < 1"
      and opp: "opp = \<lparr>exists_flag = True,
       profit_percentage = toFixed2 (js_mul (js_sub (js_div (Num 1) (Num r)) (Num 1)) (Num 100)),
       bets = [\<lparr>outcome = team1 q, bet_bookmaker = best_bookmaker b1, bet_odds = best_odds b1,
                 stake_pct = toFixed2 (js_mul (js_div (js_div (Num 1) (best_odds b1)) (Num r)) (Num 100))\<rparr>,
               \<lparr>outcome = team2 q, bet_bookmaker = best_bookmaker b2, bet_odds = best_odds b2,
                 stake_pct = toFixed2 (js_mul (js_div (js_div (Num 1) (best_odds b2)) (Num r)) (Num 100))\<rparr>]\<rparr>"
    have "ge0 (best_odds b1)" "ge0 (best_odds b2)" using bests2_ok[OF b] by (simp_all add: okBest_ge0)
    from legs_above_one_2[OF this t r] show ?thesis by (simp add: opp)
  qed
next
  assume "calculate3WayArbitrage odds = Inr (Some opp)"
  then show ?thesis
  proof (rule calc3_Some)
    fix b1 b2 b3 r q qs
    assume b: "bestOdds3Way odds = (b1, b2, b3)"
      and t: "js_add (js_add (js_div (Num 1) (best_odds b1)) (js_div (Num 1) (best_odds b2)))
       (js_div (Num 1) (best_odds b3)) = Num r"
      and r: "r < 1"
      and opp: "opp = \<lparr>exists_flag = True,
       profit_percentage = toFixed2 (js_mul (js_sub (js_div (Num 1) (Num r)) (Num 1)) (Num 100)),
       bets = [\<lparr>outcome = team1 q, bet_bookmaker = best_bookmaker b1, bet_odds = best_odds b1,
                 stake_pct = toFixed2 (js_mul (js_div (js_div (Num 1) (best_odds b1)) (Num r)) (Num 100))\<rparr>,
               \<lparr>outcome = ''Draw'', bet_bookmaker = best_bookmaker b3, bet_odds = best_odds b3,
                 stake_pct = toFixed2 (js_mul (js_div (js_div (Num 1) (best_odds b3)) (Num r)) (Num 100))\<rparr>,
               \<lparr>outcome = team2 q, bet_bookmaker = best_bookmaker b2, bet_odds = best_odds b2,
                 stake_pct = toFixed2 (js_mul (js_div (js_div (Num 1) (best_odds b2)) (Num r)) (Num 100))\<rparr>]\<rparr>"
    have "ge0 (best_odds b1)" "ge0 (best_odds b2)" "ge0 (best_odds b3)"
      using bests3_ok[OF b] by (simp_all add: okBest_ge0)
    from legs_above_one_3[OF this t r] show ?thesis by (simp add: opp)
  qed
qed

lemma fold_betterDraw_mem:
  "foldl betterDraw b xs = b \<or>
   (\<exists>q \<in> set xs. \<exists>d. draw_odds q = Some d
       \<and> foldl betterDraw b xs = \<lparr>best_odds = d, best_bookmaker = Some (bookmaker q)\<rparr>
       \<and> js_gt d (best_odds b))"
proof (induction xs arbitrary: b)
  case Nil
  then show ?case by simp
next
  case (Cons x xs)
  show ?case
  proof (cases "truthy_gt (draw_odds x) (best_odds b)")
    case True
    then obtain d where d: "draw_odds x = Some d" "js_gt d (best_odds b)"
      by (cases "draw_odds x") auto
    with True have b': "betterDraw b x = \<lparr>best_odds = d, best_bookmaker = Some (bookmaker x)\<rparr>"
      by (simp add: betterDraw_def)
    from Cons.IH[of "betterDraw b x"] show ?thesis
    proof
      assume "foldl betterDraw (betterDraw b x) xs = betterDraw b x"
      with b' d show ?thesis by auto
    next
      assume "\<exists>q\<in>set xs. \<exists>e. draw_odds q = Some e
         \<and> foldl betterDraw (betterDraw b x) xs = \<lparr>best_odds = e, best_bookmaker = Some (bookmaker q)\<rparr>
         \<and> js_gt e (best_odds (betterDraw b x))"
      then obtain q e where q: "q \<in> set xs" "draw_odds q = Some e"
        "foldl betterDraw (betterDraw b x) xs = \<lparr>best_odds = e, best_bookmaker = Some (bookmaker q)\<rparr>"
        "js_gt e (best_odds (betterDraw b x))" by blast
      from q(4) b' d(2) have "js_gt e (best_odds b)" by (auto intro: js_gt_trans)
      with q show ?thesis by auto
    qed
  next
    case False
    then have "betterDraw b x = b" by (cases "draw_odds x") (auto simp: betterDraw_def)
    with Cons.IH[of b] show ?thesis by auto
  qed
qed

lemma picked_side: "pickedFrom (Some \<circ> f) odds (foldl (better f) noBest odds)"
  using fold_better_mem[of f noBest odds]
  by (auto simp: pickedFrom_def list_ex_iff noBest_def)

lemma picked_draw: "pickedFrom draw_odds odds (foldl betterDraw noBest odds)"
  using fold_betterDraw_mem[of noBest odds]
proof
  assume "foldl betterDraw noBest odds = noBest"
  then show ?thesis by (simp add: pickedFrom_def)
next
  assume "\<exists>q\<in>set odds. \<exists>d. draw_odds q = Some d
     \<and> foldl betterDraw noBest odds = \<lparr>best_odds = d, best_bookmaker = Some (bookmaker q)\<rparr>
     \<and> js_gt d (best_odds noBest)"
  then obtain q d where "q \<in> set odds" "draw_odds q = Some d"
    "foldl betterDraw noBest odds = \<lparr>best_odds = d, best_bookmaker = Some (bookmaker q)\<rparr>"
    "js_gt d (Num 0)" by (auto simp: noBest_def)
  then show ?thesis unfolding pickedFrom_def list_ex_iff
    by (intro disjI2 bexI[of _ q]) simp_all
qed

lemma unpriced_side: "\<not> carriesPrice (Some \<circ> f) odds \<Longrightarrow> foldl (better f) noBest odds = noBest"
  using fold_better_mem[of f noBest odds]
  by (auto simp: carriesPrice_def list_ex_iff noBest_def)

lemma unpriced_draw: "\<not> carriesPrice draw_odds odds \<Longrightarrow> foldl betterDraw noBest odds = noBest"
  using fold_betterDraw_mem[of noBest odds]
  by (auto simp: carriesPrice_def list_ex_iff noBest_def)

lemma hasDrawOdds_carries: "hasDrawOdds odds \<longleftrightarrow> carriesPrice draw_odds odds"
proof -
  have "truthy_gt d (Num 0) \<longleftrightarrow> (case d of None \<Rightarrow> False | Some p \<Rightarrow> js_gt p (Num 0))" for d
  proof (cases d)
    case None then show ?thesis by simp
  next
    case (Some p) then show ?thesis by (cases p) auto
  qed
  then show ?thesis by (simp add: hasDrawOdds_def carriesPrice_def)
qed

lemma calc3_unpriced:
  assumes "bestOdds3Way odds = (b1, b2, b3)" "b1 = noBest \<or> b2 = noBest \<or> b3 = noBest"
  shows "calculate3WayArbitrage odds = Inr None"
  using assms by (auto simp: calculate3WayArbitrage_def noBest_def)

lemma PosInf_add: "ge0 y \<Longrightarrow> js_add PosInf y = PosInf \<and> js_add y PosInf = PosInf"
  by (auto simp: ge0_def)

lemma hasDrawOdds_spec:
  "hasDrawOdds odds \<longleftrightarrow> spec_bestPrice [d. Some d \<leftarrow> map draw_odds odds] \<noteq> None"
proof -
  have "carriesPrice draw_odds odds
      \<longleftrightarrow> (\<exists>d\<in>set [d. Some d \<leftarrow> map draw_odds odds]. js_gt d (Num 0))"
    by (induction odds) (auto simp: carriesPrice_def split: option.splits)
  then show ?thesis by (simp add: hasDrawOdds_carries spec_bestPrice_None)
qed

text \<open>A total below 1 is at most the greatest double below 1.\<close>

lemma total_gap:
  assumes "ge0 x" "ge0 y" "js_add x y = Num r" "r < 1"
  shows "r \<le> 1 - pow2 (- 53)"
proof -
  from ge0_add_Num [OF assms] obtain p q where "0 \<le> p" "0 \<le> q" "to_double (p + q) = Num r"
    by blast
  then show ?thesis using assms(4) by (intro to_double_below_one [of "p + q"]) simp_all
qed


text \<open>The two calculators on a non-empty list, in terms of the best prices.\<close>

lemma calc2_eq:
  assumes "odds = q # qs"
    and "b1 = foldl (better odds1) noBest odds" and "b2 = foldl (better odds2) noBest odds"
    and "p1 = js_div (Num 1) (best_odds b1)" and "p2 = js_div (Num 1) (best_odds b2)"
    and "t = js_add p1 p2"
  shows "calculate2WayArbitrage odds =
     (if js_ge t (Num 1) then Inr None
      else Inr (Some \<lparr>exists_flag = True,
        profit_percentage = toFixed2 (js_mul (js_sub (js_div (Num 1) t) (Num 1)) (Num 100)),
        bets = [\<lparr>outcome = team1 q, bet_bookmaker = best_bookmaker b1, bet_odds = best_odds b1,
                  stake_pct = toFixed2 (js_mul (js_div p1 t) (Num 100))\<rparr>,
                \<lparr>outcome = team2 q, bet_bookmaker = best_bookmaker b2, bet_odds = best_odds b2,
                  stake_pct = toFixed2 (js_mul (js_div p2 t) (Num 100))\<rparr>]\<rparr>))"
  unfolding assms
  by (simp add: calculate2WayArbitrage_def bestOdds2Way_eq Let_def
      del: toFixed2.simps js_div.simps js_mul.simps js_add.simps js_ge.simps foldl_Cons)

lemma calc3_eq:
  assumes "odds = q # qs"
    and "b1 = foldl (better odds1) noBest odds" and "b2 = foldl (better odds2) noBest odds"
    and "b3 = foldl betterDraw noBest odds"
    and "p1 = js_div (Num 1) (best_odds b1)" and "p2 = js_div (Num 1) (best_odds b2)"
    and "p3 = js_div (Num 1) (best_odds b3)"
    and "t = js_add (js_add p1 p2) p3"
  shows "calculate3WayArbitrage odds =
     (if best_odds b1 = Num 0 \<or> best_odds b2 = Num 0 \<or> best_odds b3 = Num 0 then Inr None
      else if js_ge t (Num 1) then Inr None
      else Inr (Some \<lparr>exists_flag = True,
        profit_percentage = toFixed2 (js_mul (js_sub (js_div (Num 1) t) (Num 1)) (Num 100)),
        bets = [\<lparr>outcome = team1 q, bet_bookmaker = best_bookmaker b1, bet_odds = best_odds b1,
                  stake_pct = toFixed2 (js_mul (js_div p1 t) (Num 100))\<rparr>,
                \<lparr>outcome = ''Draw'', bet_bookmaker = best_bookmaker b3, bet_odds = best_odds b3,
                  stake_pct = toFixed2 (js_mul (js_div p3 t) (Num 100))\<rparr>,
                \<lparr>outcome = team2 q, bet_bookmaker = best_bookmaker b2, bet_odds = best_odds b2,
                  stake_pct = toFixed2 (js_mul (js_div p2 t) (Num 100))\<rparr>]\<rparr>))"
  unfolding assms
  by (simp add: calculate3WayArbitrage_def bestOdds3Way_eq Let_def
      del: toFixed2.simps js_div.simps js_mul.simps js_add.simps js_ge.simps foldl_Cons)

lemma unpriced_total:
  assumes "ge0 y"
  shows "js_ge (js_add (js_div (Num 1) (Num 0)) y) (Num 1)"
    and "js_ge (js_add y (js_div (Num 1) (Num 0))) (Num 1)"
  using PosInf_add [OF assms] by simp_all

lemma spec_bestPrice_ne0: "spec_bestPrice ps = Some v \<Longrightarrow> v \<noteq> Num 0"
  using spec_bestPrice_Some(2) [of ps v] by auto

lemma spec_bestPrice_ge0: "spec_bestPrice ps = Some v \<Longrightarrow> ge0 v"
  using spec_bestPrice_Some(2) [of ps v] by (auto simp: ge0_def js_gt_0_iff)


section \<open>The error of the stakes in double arithmetic\<close>

lemma round2_nonneg_eq: "0 \<le> u \<Longrightarrow> round2 u = of_int \<lfloor>u * 100 + 1 / 2\<rfloor> / 100"
  by (cases "u = 0") (simp_all add: round2_def)

lemma round2_err: assumes "0 \<le> u" shows "\<bar>round2 u - u\<bar> \<le> 1 / 200"
proof -
  let ?n = "\<lfloor>u * 100 + 1 / 2\<rfloor>"
  have 1: "of_int ?n \<le> u * 100 + 1 / 2" by (rule of_int_floor_le)
  have 2: "u * 100 + 1 / 2 < of_int ?n + 1" by linarith
  have "\<bar>of_int ?n / 100 - u\<bar> \<le> 1 / 200" using 1 2 by linarith
  then show ?thesis unfolding round2_nonneg_eq[OF assms] .
qed

lemma round2_int: "0 \<le> u \<Longrightarrow> \<exists>k::int. round2 u = of_int k / 100"
  by (auto simp: round2_nonneg_eq)

text \<open>
  Two or three two-decimal roundings of values that sum to 100 within a thousandth sum
  to 100 within a hundredth: the sum is a multiple of a hundredth.
\<close>

lemma sum2_round:
  assumes "0 \<le> u" "0 \<le> v" "\<bar>u + v - 100\<bar> \<le> 1 / 1000"
  shows "\<bar>round2 u + round2 v - 100\<bar> \<le> 1 / 100"
proof -
  obtain i j :: int where ij: "round2 u = of_int i / 100" "round2 v = of_int j / 100"
    using round2_int[OF assms(1)] round2_int[OF assms(2)] by blast
  have "\<bar>round2 u + round2 v - 100\<bar> \<le> 11 / 1000"
    using round2_err[OF assms(1)] round2_err[OF assms(2)] assms(3) by linarith
  then have "\<bar>real_of_int (i + j - 10000)\<bar> \<le> 11 / 10"
    by (simp add: ij abs_le_iff field_simps)
  then have "\<bar>i + j - 10000\<bar> \<le> 1" by linarith
  then have "\<bar>real_of_int (i + j - 10000)\<bar> \<le> 1" by linarith
  then show ?thesis by (simp add: ij abs_le_iff field_simps)
qed

lemma sum3_round:
  assumes "0 \<le> u" "0 \<le> v" "0 \<le> w" "\<bar>u + v + w - 100\<bar> \<le> 1 / 1000"
  shows "\<bar>round2 u + round2 v + round2 w - 100\<bar> \<le> 1 / 100"
proof -
  obtain i j k :: int where ijk: "round2 u = of_int i / 100" "round2 v = of_int j / 100"
    "round2 w = of_int k / 100"
    using round2_int[OF assms(1)] round2_int[OF assms(2)] round2_int[OF assms(3)] by blast
  have "\<bar>round2 u + round2 v + round2 w - 100\<bar> \<le> 16 / 1000"
    using round2_err[OF assms(1)] round2_err[OF assms(2)] round2_err[OF assms(3)] assms(4)
    by linarith
  then have "\<bar>real_of_int (i + j + k - 10000)\<bar> \<le> 16 / 10"
    by (simp add: ijk abs_le_iff field_simps)
  then have "\<bar>i + j + k - 10000\<bar> \<le> 1" by linarith
  then have "\<bar>real_of_int (i + j + k - 10000)\<bar> \<le> 1" by linarith
  then show ?thesis by (simp add: ijk abs_le_iff field_simps)
qed

text \<open>Inequalities between absolute values that the error bounds are composed with.\<close>

lemma abs_scaled:
  fixes n v y :: real
  shows "\<bar>n - v * 100\<bar> \<le> \<bar>n - y * 100\<bar> + 100 * \<bar>y - v\<bar>"
  by (simp add: abs_if)

lemma abs_sum2:
  fixes a1 a2 r u1 u2 :: real
  assumes "a1 + a2 = r * 100"
  shows "\<bar>u1 + u2 - 100\<bar> \<le> \<bar>u1 - a1\<bar> + \<bar>u2 - a2\<bar> + 100 * \<bar>r - 1\<bar>"
  using assms by (simp add: abs_if split: if_splits)

lemma abs_sum3:
  fixes a1 a2 a3 r u1 u2 u3 :: real
  assumes "a1 + a3 + a2 = r * 100"
  shows "\<bar>u1 + u3 + u2 - 100\<bar> \<le> \<bar>u1 - a1\<bar> + \<bar>u3 - a3\<bar> + \<bar>u2 - a2\<bar> + 100 * \<bar>r - 1\<bar>"
  using assms by (simp add: abs_if split: if_splits)

lemma abs_near:
  fixes s a b :: real
  assumes "\<bar>s - a\<bar> \<le> b" "b \<le> a" "0 \<le> a"
  shows "0 \<le> s" "s \<le> 2 * a"
  using assms by linarith+

lemma abs_chain:
  fixes t s x S a b c d :: real
  assumes "\<bar>t - (s + x)\<bar> \<le> a" "\<bar>s - c\<bar> \<le> b" "a \<le> 2 * d" "b \<le> d" "S = c + x"
  shows "\<bar>t - S\<bar> \<le> 3 * d"
  using assms by linarith

lemma abs_ratio:
  fixes S t :: real
  assumes "0 < t"
  shows "\<bar>S / t - 1\<bar> = \<bar>S - t\<bar> / t"
proof -
  have "S / t - 1 = (S - t) / t" using assms by (simp add: field_simps)
  then show ?thesis using assms by (simp add: abs_divide)
qed

text \<open>The rounding error of a sum from \<open>2^(-1024)\<close> on is relative.\<close>

lemma sum_err:
  assumes "pow2 (- 1024) \<le> s" "to_double s = Num t"
  shows "\<bar>t - s\<bar> \<le> s * pow2 (- 50)"
proof -
  have s: "0 < s" using assms(1) pow2_pos [of "- 1024"] by linarith
  have t: "t = nearest s" using s assms(2) by (rule to_double_Num_pos)
  have "pow2 (- 1075) = pow2 (- 51) * pow2 (- 1024)" by (simp add: pow2_add [symmetric])
  also have "\<dots> \<le> pow2 (- 51) * s" using assms(1) by (intro mult_left_mono) simp_all
  finally have 1: "pow2 (- 1075) \<le> s * pow2 (- 51)" by (simp add: mult.commute)
  have 2: "pow2 (- 53) + pow2 (- 51) \<le> pow2 (- 50)" by (simp add: pow2_def)
  have "\<bar>t - s\<bar> \<le> s * pow2 (- 53) + pow2 (- 1075)" unfolding t using s by (rule nearest_err)
  also have "\<dots> \<le> s * pow2 (- 53) + s * pow2 (- 51)" using 1 by simp
  also have "\<dots> = s * (pow2 (- 53) + pow2 (- 51))" by (simp add: distrib_left)
  also have "\<dots> \<le> s * pow2 (- 50)" using 2 s by (intro mult_left_mono) simp_all
  finally show ?thesis .
qed

lemma ratio_err:
  assumes "0 < S" "\<bar>t - S\<bar> \<le> S * pow2 (- 48)"
  shows "0 < t" "S / t \<le> 2" "\<bar>S / t - 1\<bar> \<le> pow2 (- 47)"
proof -
  have h: "pow2 (- 48) \<le> 1 / 2" by (simp add: pow2_def)
  have "S * pow2 (- 48) \<le> S * (1 / 2)" using h assms(1) by (intro mult_left_mono) simp_all
  then have lo: "S / 2 \<le> t" using assms(2) by linarith
  then show t: "0 < t" using assms(1) by linarith
  show r: "S / t \<le> 2" using lo t by (simp add: field_simps)
  have "\<bar>S / t - 1\<bar> = \<bar>S - t\<bar> / t" using t by (rule abs_ratio)
  also have "\<dots> \<le> S * pow2 (- 48) / t"
    using assms(2) t by (intro divide_right_mono) (simp_all add: abs_minus_commute)
  also have "\<dots> = S / t * pow2 (- 48)" by simp
  also have "\<dots> \<le> 2 * pow2 (- 48)" using r by (intro mult_right_mono) simp_all
  also have "\<dots> = pow2 (- 47)" by (simp add: pow2_def)
  finally show "\<bar>S / t - 1\<bar> \<le> pow2 (- 47)" .
qed

text \<open>A stake before rounding: \<open>x / t * 100\<close> in double arithmetic, for a ratio up to 2.\<close>

lemma stake_err_pos:
  assumes "0 < x" "0 < t" "x / t \<le> 2"
  shows "\<exists>u. js_mul (js_div (Num x) (Num t)) (Num 100) = Num u \<and> 0 \<le> u \<and> u \<le> 256
           \<and> \<bar>u - x / t * 100\<bar> \<le> pow2 (- 40)"
proof -
  define v where "v = x / t"
  define y where "y = nearest v"
  have v: "0 < v" "v \<le> pow2 1" using assms by (simp_all add: v_def pow2_def)
  have dv: "to_double v = Num y" and y2: "y \<le> pow2 1"
    using to_double_upper [OF v] by (simp_all add: y_def)
  have y0: "0 \<le> y" unfolding y_def using v(1) by (rule nearest_nonneg)
  have "\<bar>y - v\<bar> \<le> v * pow2 (- 53) + pow2 (- 1075)" unfolding y_def using v(1) by (rule nearest_err)
  also have "\<dots> \<le> 2 * pow2 (- 53) + pow2 (- 1075)"
    using v(2) by (simp add: pow2_def)
  also have "\<dots> \<le> pow2 (- 51)" by (simp add: pow2_def)
  finally have ey: "\<bar>y - v\<bar> \<le> pow2 (- 51)" .
  have d: "js_mul (js_div (Num x) (Num t)) (Num 100) = to_double (y * 100)"
    using assms(2) dv by (simp add: v_def)
  show ?thesis
  proof (cases "y = 0")
    case True
    have "\<bar>0 - v * 100\<bar> \<le> 100 * pow2 (- 51)" using ey True v(1) by simp
    also have "\<dots> \<le> pow2 (- 40)" by (simp add: pow2_def)
    finally show ?thesis using True d by (simp add: v_def)
  next
    case False
    define w where "w = y * 100"
    have w: "0 < w" "w \<le> pow2 8" using False y0 y2 by (simp_all add: w_def pow2_def)
    have dw: "to_double w = Num (nearest w)" and w8: "nearest w \<le> pow2 8"
      using to_double_upper [OF w] by simp_all
    have "\<bar>nearest w - w\<bar> \<le> w * pow2 (- 53) + pow2 (- 1075)" using w(1) by (rule nearest_err)
    also have "\<dots> \<le> 256 * pow2 (- 53) + pow2 (- 1075)"
      using w(2) by (simp add: pow2_def)
    also have "\<dots> \<le> pow2 (- 44)" by (simp add: pow2_def)
    finally have ew: "\<bar>nearest w - w\<bar> \<le> pow2 (- 44)" .
    have "\<bar>nearest w - v * 100\<bar> \<le> \<bar>nearest w - w\<bar> + 100 * \<bar>y - v\<bar>"
      unfolding w_def by (rule abs_scaled)
    also have "\<dots> \<le> pow2 (- 44) + 100 * pow2 (- 51)"
      by (intro add_mono mult_left_mono ew ey) simp
    also have "\<dots> \<le> pow2 (- 40)" by (simp add: pow2_def)
    finally have "\<bar>nearest w - x / t * 100\<bar> \<le> pow2 (- 40)" by (simp add: v_def)
    moreover have "0 \<le> nearest w" using w(1) by (rule nearest_nonneg)
    moreover have "nearest w \<le> 256" using w8 by (simp add: pow2_def)
    ultimately show ?thesis using d dw by (auto simp: w_def)
  qed
qed

lemma stake_err:
  assumes "0 \<le> x" "0 < t" "x / t \<le> 2"
  shows "\<exists>u. js_mul (js_div (Num x) (Num t)) (Num 100) = Num u \<and> 0 \<le> u \<and> u \<le> 256
           \<and> \<bar>u - x / t * 100\<bar> \<le> pow2 (- 40)"
proof (cases "x = 0")
  case True
  with assms(2) show ?thesis by simp
next
  case False
  with assms(1) have "0 < x" by simp
  then show ?thesis using assms(2,3) by (rule stake_err_pos)
qed

text \<open>
  The stakes of two and of three legs.  An implied probability is 0, for the price
  \<open>Infinity\<close>, or at least \<open>2^(-1024)\<close>, and not all of them are 0.
\<close>

lemma stakes2:
  assumes "x1 = 0 \<or> pow2 (- 1024) \<le> x1" "x2 = 0 \<or> pow2 (- 1024) \<le> x2" "0 < x1 + x2"
    "to_double (x1 + x2) = Num t"
  shows "\<exists>u1 u2. js_mul (js_div (Num x1) (Num t)) (Num 100) = Num u1
           \<and> js_mul (js_div (Num x2) (Num t)) (Num 100) = Num u2
           \<and> 0 \<le> u1 \<and> u1 \<le> 256 \<and> 0 \<le> u2 \<and> u2 \<le> 256
           \<and> \<bar>u1 + u2 - 100\<bar> \<le> 1 / 1000"
proof -
  define S where "S = x1 + x2"
  have x: "0 \<le> x1" "0 \<le> x2"
    using assms(1,2) by (simp_all add: pow2_or_0_nonneg)
  have S: "0 < S" using assms(3) by (simp add: S_def)
  have S': "pow2 (- 1024) \<le> S"
  proof (cases "x1 = 0")
    case True
    with assms(3) have "x2 \<noteq> 0" by auto
    with assms(2) True show ?thesis by (auto simp: S_def)
  next
    case False
    with assms(1) have "pow2 (- 1024) \<le> x1" by auto
    with x(2) show ?thesis by (simp add: S_def)
  qed
  have "\<bar>t - S\<bar> \<le> S * pow2 (- 50)" using S' assms(4) unfolding S_def by (rule sum_err)
  also have "\<dots> \<le> S * pow2 (- 48)" using S by (intro mult_left_mono) (simp_all add: pow2_le_iff)
  finally have e: "\<bar>t - S\<bar> \<le> S * pow2 (- 48)" .
  note r = ratio_err [OF S e]
  have r1: "x1 / t \<le> 2"
  proof -
    have "x1 / t \<le> S / t" using x r(1) by (intro divide_right_mono) (simp_all add: S_def)
    with r(2) show ?thesis by linarith
  qed
  have r2: "x2 / t \<le> 2"
  proof -
    have "x2 / t \<le> S / t" using x r(1) by (intro divide_right_mono) (simp_all add: S_def)
    with r(2) show ?thesis by linarith
  qed
  from stake_err [OF x(1) r(1) r1] obtain u1
    where u1: "js_mul (js_div (Num x1) (Num t)) (Num 100) = Num u1" "0 \<le> u1" "u1 \<le> 256"
      "\<bar>u1 - x1 / t * 100\<bar> \<le> pow2 (- 40)" by blast
  from stake_err [OF x(2) r(1) r2] obtain u2
    where u2: "js_mul (js_div (Num x2) (Num t)) (Num 100) = Num u2" "0 \<le> u2" "u2 \<le> 256"
      "\<bar>u2 - x2 / t * 100\<bar> \<le> pow2 (- 40)" by blast
  have sum: "x1 / t * 100 + x2 / t * 100 = S / t * 100" by (simp add: S_def add_divide_distrib)
  have "\<bar>u1 + u2 - 100\<bar> \<le> \<bar>u1 - x1 / t * 100\<bar> + \<bar>u2 - x2 / t * 100\<bar> + 100 * \<bar>S / t - 1\<bar>"
    using sum by (rule abs_sum2)
  also have "\<dots> \<le> pow2 (- 40) + pow2 (- 40) + 100 * pow2 (- 47)"
    by (intro add_mono mult_left_mono u1(4) u2(4) r(3)) simp
  also have "\<dots> \<le> 1 / 1000" by (simp add: pow2_def)
  finally have "\<bar>u1 + u2 - 100\<bar> \<le> 1 / 1000" .
  with u1 u2 show ?thesis by blast
qed

lemma stakes3:
  assumes "x1 = 0 \<or> pow2 (- 1024) \<le> x1" "x2 = 0 \<or> pow2 (- 1024) \<le> x2"
    "x3 = 0 \<or> pow2 (- 1024) \<le> x3" "0 < x1 + x2 + x3"
    "to_double (x1 + x2) = Num s" "to_double (s + x3) = Num t"
  shows "\<exists>u1 u2 u3. js_mul (js_div (Num x1) (Num t)) (Num 100) = Num u1
           \<and> js_mul (js_div (Num x2) (Num t)) (Num 100) = Num u2
           \<and> js_mul (js_div (Num x3) (Num t)) (Num 100) = Num u3
           \<and> 0 \<le> u1 \<and> u1 \<le> 256 \<and> 0 \<le> u2 \<and> u2 \<le> 256 \<and> 0 \<le> u3 \<and> u3 \<le> 256
           \<and> \<bar>u1 + u3 + u2 - 100\<bar> \<le> 1 / 1000"
proof -
  define S where "S = x1 + x2 + x3"
  define e where "e = pow2 (- 50)"
  have x: "0 \<le> x1" "0 \<le> x2" "0 \<le> x3"
    using assms(1,2,3) by (simp_all add: pow2_or_0_nonneg)
  have two: "pow2 (- 1024) \<le> x1 + x2" if "x1 + x2 \<noteq> 0"
  proof (cases "x1 = 0")
    case True
    with that assms(2) show ?thesis by auto
  next
    case False
    with assms(1) have "pow2 (- 1024) \<le> x1" by auto
    with x(2) show ?thesis by simp
  qed
  have S: "0 < S" using assms(4) by (simp add: S_def)
  have e: "0 \<le> e" "e \<le> 1" by (simp_all add: e_def pow2_def)
  have e12: "\<bar>s - (x1 + x2)\<bar> \<le> (x1 + x2) * e"
  proof (cases "x1 + x2 = 0")
    case True
    with assms(5) show ?thesis by simp
  next
    case False
    then have "pow2 (- 1024) \<le> x1 + x2" by (rule two)
    then show ?thesis unfolding e_def using assms(5) by (rule sum_err)
  qed
  have "(x1 + x2) * e \<le> (x1 + x2) * 1" using e x by (intro mult_left_mono) simp_all
  then have le: "(x1 + x2) * e \<le> x1 + x2" by simp
  have s: "0 \<le> s" "s \<le> 2 * (x1 + x2)" using abs_near [OF e12 le] x by simp_all
  have 3: "pow2 (- 1024) \<le> s + x3"
  proof (cases "x3 = 0")
    case True
    with assms(4) have "x1 + x2 \<noteq> 0" by simp
    then have "pow2 (- 1024) \<le> x1 + x2" by (rule two)
    then have "to_double (x1 + x2) = PosInf
        \<or> (\<exists>y. to_double (x1 + x2) = Num y \<and> y = nearest (x1 + x2) \<and> pow2 (- 1024) \<le> y)"
      by (rule to_double_lower) simp
    with assms(5) True show ?thesis by auto
  next
    case False
    with assms(3) have "pow2 (- 1024) \<le> x3" by auto
    with s(1) show ?thesis by simp
  qed
  have e3: "\<bar>t - (s + x3)\<bar> \<le> (s + x3) * e" unfolding e_def using 3 assms(6) by (rule sum_err)
  have "s + x3 \<le> 2 * S" using s(2) x by (simp add: S_def)
  then have "(s + x3) * e \<le> 2 * S * e" using e(1) by (intro mult_right_mono) simp_all
  then have a: "(s + x3) * e \<le> 2 * (S * e)" by simp
  have b: "(x1 + x2) * e \<le> S * e" using e(1) x by (intro mult_right_mono) (simp_all add: S_def)
  have "\<bar>t - S\<bar> \<le> 3 * (S * e)" using e3 e12 a b by (rule abs_chain) (simp add: S_def)
  then have "\<bar>t - S\<bar> \<le> 3 * S * e" by simp
  also have "\<dots> = S * (3 * pow2 (- 50))" by (simp add: e_def)
  also have "\<dots> \<le> S * pow2 (- 48)" using S by (intro mult_left_mono) (simp_all add: pow2_def)
  finally have err: "\<bar>t - S\<bar> \<le> S * pow2 (- 48)" .
  note r = ratio_err [OF S err]
  have r1: "x1 / t \<le> 2"
  proof -
    have "x1 / t \<le> S / t" using x r(1) by (intro divide_right_mono) (simp_all add: S_def)
    with r(2) show ?thesis by linarith
  qed
  have r2: "x2 / t \<le> 2"
  proof -
    have "x2 / t \<le> S / t" using x r(1) by (intro divide_right_mono) (simp_all add: S_def)
    with r(2) show ?thesis by linarith
  qed
  have r3: "x3 / t \<le> 2"
  proof -
    have "x3 / t \<le> S / t" using x r(1) by (intro divide_right_mono) (simp_all add: S_def)
    with r(2) show ?thesis by linarith
  qed
  from stake_err [OF x(1) r(1) r1] obtain u1
    where u1: "js_mul (js_div (Num x1) (Num t)) (Num 100) = Num u1" "0 \<le> u1" "u1 \<le> 256"
      "\<bar>u1 - x1 / t * 100\<bar> \<le> pow2 (- 40)" by blast
  from stake_err [OF x(2) r(1) r2] obtain u2
    where u2: "js_mul (js_div (Num x2) (Num t)) (Num 100) = Num u2" "0 \<le> u2" "u2 \<le> 256"
      "\<bar>u2 - x2 / t * 100\<bar> \<le> pow2 (- 40)" by blast
  from stake_err [OF x(3) r(1) r3] obtain u3
    where u3: "js_mul (js_div (Num x3) (Num t)) (Num 100) = Num u3" "0 \<le> u3" "u3 \<le> 256"
      "\<bar>u3 - x3 / t * 100\<bar> \<le> pow2 (- 40)" by blast
  have sum: "x1 / t * 100 + x3 / t * 100 + x2 / t * 100 = S / t * 100"
    by (simp add: S_def add_divide_distrib)
  have "\<bar>u1 + u3 + u2 - 100\<bar>
      \<le> \<bar>u1 - x1 / t * 100\<bar> + \<bar>u3 - x3 / t * 100\<bar> + \<bar>u2 - x2 / t * 100\<bar> + 100 * \<bar>S / t - 1\<bar>"
    using sum by (rule abs_sum3)
  also have "\<dots> \<le> pow2 (- 40) + pow2 (- 40) + pow2 (- 40) + 100 * pow2 (- 47)"
    by (intro add_mono mult_left_mono u1(4) u2(4) u3(4) r(3)) simp
  also have "\<dots> \<le> 1 / 1000" by (simp add: pow2_def)
  finally have "\<bar>u1 + u3 + u2 - 100\<bar> \<le> 1 / 1000" .
  with u1 u2 u3 show ?thesis by blast
qed

text \<open>A stake after rounding: the double nearest to the two-decimal value.\<close>

lemma toFixed2_stake:
  assumes "0 \<le> u" "u \<le> 256"
  shows "\<exists>v. toFixed2 (Num u) = Num v \<and> to_double (round2 u) = Num v
           \<and> \<bar>v - round2 u\<bar> \<le> pow2 (- 43)"
proof -
  have f: "toFixed2 (Num u) = to_double (round2 u)" using assms by simp
  have r: "0 \<le> round2 u" using assms(1) by (rule round2_nonneg)
  have "round2 u \<le> u + 1 / 200" using round2_err [OF assms(1)] by linarith
  then have r9: "round2 u \<le> pow2 9" using assms(2) by (simp add: pow2_def)
  show ?thesis
  proof (cases "round2 u = 0")
    case True
    then show ?thesis using f by simp
  next
    case False
    with r have r0: "0 < round2 u" by simp
    have "to_double (round2 u) = Num (nearest (round2 u)) \<and> nearest (round2 u) \<le> pow2 9"
      using r0 r9 by (rule to_double_upper) simp_all
    then have d: "to_double (round2 u) = Num (nearest (round2 u))" by simp
    have "\<bar>nearest (round2 u) - round2 u\<bar> \<le> round2 u * pow2 (- 53) + pow2 (- 1075)"
      using r0 by (rule nearest_err)
    also have "\<dots> \<le> 512 * pow2 (- 53) + pow2 (- 1075)" using r9 by (simp add: pow2_def)
    also have "\<dots> \<le> pow2 (- 43)" by (simp add: pow2_def)
    finally show ?thesis using f d by simp
  qed
qed


text \<open>
  The implied probability of a best price that is a double is at least \<open>2^(-1024)\<close>, when
  it is finite; that of the price \<open>Infinity\<close> is 0.
\<close>

lemma leg_price:
  assumes "pickedFrom price odds b"
    and "list_all (\<lambda>q. case price q of None \<Rightarrow> True | Some p \<Rightarrow> jsNumber p) odds"
    and "js_div (Num 1) (best_odds b) = Num x"
  shows "if best_odds b = PosInf then x = 0 else pow2 (- 1024) \<le> x"
proof -
  from assms(3) have "b \<noteq> noBest" by (auto simp: noBest_def)
  with assms(1) obtain q p where q: "q \<in> set odds" "price q = Some p" "js_gt p (Num 0)"
    "b = \<lparr>best_odds = p, best_bookmaker = Some (bookmaker q)\<rparr>"
    by (auto simp: pickedFrom_def list_ex_iff split: option.splits)
  from assms(2) q(1,2) have p: "jsNumber p" by (auto simp: list_all_iff)
  show ?thesis
  proof (cases "p = PosInf")
    case True
    with assms(3) q(4) show ?thesis by simp
  next
    case False
    with q(3) p obtain a where a: "p = Num a" "0 < a" "isDouble a"
      by (cases p) (auto simp: jsNumber_def)
    have a2: "a < pow2 1024" using a(3,2) by (rule isDouble_pos)
    have "pow2 (- 1024) = 1 / pow2 1024" by (simp add: pow2_def)
    also have "\<dots> \<le> 1 / a" using a(2) a2 by (intro divide_left_mono) simp_all
    finally have "pow2 (- 1024) \<le> 1 / a" .
    then have "to_double (1 / a) = PosInf
        \<or> (\<exists>y. to_double (1 / a) = Num y \<and> y = nearest (1 / a) \<and> pow2 (- 1024) \<le> y)"
      by (rule to_double_lower) simp
    moreover have "to_double (1 / a) = Num x" using assms(3) q(4) a(1,2) by simp
    ultimately show ?thesis using q(4) a(1) by auto
  qed
qed

lemma prices_double:
  assumes "jsNumbers odds"
  shows "list_all (\<lambda>q. case (Some \<circ> odds1) q of None \<Rightarrow> True | Some p \<Rightarrow> jsNumber p) odds"
    and "list_all (\<lambda>q. case (Some \<circ> odds2) q of None \<Rightarrow> True | Some p \<Rightarrow> jsNumber p) odds"
    and "list_all (\<lambda>q. case draw_odds q of None \<Rightarrow> True | Some p \<Rightarrow> jsNumber p) odds"
  using assms by (auto simp: jsNumbers_def list_all_iff split: option.splits)

lemma leg_cases:
  "(if P then x = 0 else pow2 (- 1024) \<le> x) \<Longrightarrow> x = 0 \<or> pow2 (- 1024) \<le> x"
  by (simp split: if_splits)

lemma leg_pos: "(if P then x = 0 else pow2 (- 1024) \<le> x) \<Longrightarrow> \<not> P \<Longrightarrow> 0 < x"
  using pow2_le_pos [of "- 1024" x] by (simp split: if_splits)

lemma returned_sum2:
  fixes v1 v2 c1 c2 :: real
  assumes "\<bar>c1 + c2 - 100\<bar> \<le> 1 / 100" "\<bar>v1 - c1\<bar> \<le> pow2 (- 43)" "\<bar>v2 - c2\<bar> \<le> pow2 (- 43)"
  shows "\<bar>v1 + v2 - 100\<bar> \<le> 1 / 100 + pow2 (- 40)"
proof -
  have "\<bar>v1 + v2 - 100\<bar> \<le> 1 / 100 + (pow2 (- 43) + pow2 (- 43))" using assms by linarith
  also have "\<dots> \<le> 1 / 100 + pow2 (- 40)" by (simp add: pow2_def)
  finally show ?thesis .
qed

lemma returned_sum3:
  fixes v1 v2 v3 c1 c2 c3 :: real
  assumes "\<bar>c1 + c2 + c3 - 100\<bar> \<le> 1 / 100" "\<bar>v1 - c1\<bar> \<le> pow2 (- 43)"
    "\<bar>v2 - c2\<bar> \<le> pow2 (- 43)" "\<bar>v3 - c3\<bar> \<le> pow2 (- 43)"
  shows "\<bar>v1 + v2 + v3 - 100\<bar> \<le> 1 / 100 + pow2 (- 40)"
proof -
  have "\<bar>v1 + v2 + v3 - 100\<bar> \<le> 1 / 100 + (pow2 (- 43) + pow2 (- 43) + pow2 (- 43))"
    using assms by linarith
  also have "\<dots> \<le> 1 / 100 + pow2 (- 40)" by (simp add: pow2_def)
  finally show ?thesis .
qed


section \<open>The total implied probability in exact arithmetic\<close>

text \<open>
  A value that rounds to \<open>y\<close> is at most \<open>(y + 2^(-1075)) / (1 - 2^(-53))\<close>: the rounding
  error is at most the value times \<open>2^(-53)\<close>, plus \<open>2^(-1075)\<close> for the subnormal numbers.
\<close>

lemma nearest_inverse_bound:
  assumes "0 < v"
  shows "v \<le> (nearest v + pow2 (- 1075)) / (1 - pow2 (- 53))"
proof -
  have u: "0 < 1 - pow2 (- 53)" by (simp add: pow2_def)
  have "\<bar>nearest v - v\<bar> \<le> v * pow2 (- 53) + pow2 (- 1075)" using assms by (rule nearest_err)
  then have "v - v * pow2 (- 53) \<le> nearest v + pow2 (- 1075)" by linarith
  then have "v * (1 - pow2 (- 53)) \<le> nearest v + pow2 (- 1075)" by (simp add: algebra_simps)
  then show ?thesis using u by (simp add: pos_le_divide_eq)
qed

lemma to_double_inverse_bound:
  assumes "0 \<le> v" "to_double v = Num y"
  shows "v \<le> (y + pow2 (- 1075)) / (1 - pow2 (- 53))" "0 \<le> y"
proof -
  have u: "0 < 1 - pow2 (- 53)" by (simp add: pow2_def)
  show "v \<le> (y + pow2 (- 1075)) / (1 - pow2 (- 53))"
  proof (cases "v = 0")
    case True
    with assms(2) u show ?thesis by simp
  next
    case False
    with assms(1) have v: "0 < v" by simp
    from to_double_Num_pos(1) [OF v assms(2)] nearest_inverse_bound [OF v] show ?thesis by simp
  qed
  show "0 \<le> y" using ge0_to_double [OF assms(1)] assms(2) by (simp add: ge0_def)
qed

lemma leg_exact:
  assumes "ge0 b" "js_div (Num 1) b = Num x"
  shows "spec_exactProb b \<le> (x + pow2 (- 1075)) / (1 - pow2 (- 53))" "0 \<le> x"
proof -
  have u: "0 < 1 - pow2 (- 53)" by (simp add: pow2_def)
  from assms(1) consider a where "b = Num a" "0 \<le> a" | "b = PosInf" by (auto simp: ge0_def)
  then have "spec_exactProb b \<le> (x + pow2 (- 1075)) / (1 - pow2 (- 53)) \<and> 0 \<le> x"
  proof cases
    case 1
    with assms(2) have a: "0 < a" by (cases "a = 0") auto
    then have d: "to_double (1 / a) = Num x" using assms(2) 1 by simp
    have "0 \<le> 1 / a" using a by simp
    from to_double_inverse_bound [OF this d] show ?thesis by (simp add: 1 spec_exactProb_def)
  next
    case 2
    with assms(2) u show ?thesis by (simp add: spec_exactProb_def)
  qed
  then show "spec_exactProb b \<le> (x + pow2 (- 1075)) / (1 - pow2 (- 53))" "0 \<le> x" by simp_all
qed

text \<open>The bounds composed, for a total \<open>r\<close> of at most \<open>1 - 2^(-53)\<close>.\<close>

lemma exact_bound2:
  fixes v1 v2 x1 x2 r :: real
  defines "h \<equiv> pow2 (- 1075)" and "d \<equiv> 1 - pow2 (- 53)"
  assumes "v1 \<le> (x1 + h) / d" "v2 \<le> (x2 + h) / d" "x1 + x2 \<le> (r + h) / d" "r \<le> d"
  shows "v1 + v2 < 1 + pow2 (- 50)"
proof -
  have d: "0 < d" "1 / d \<le> 1 + pow2 (- 52)" by (simp_all add: d_def pow2_def field_simps)
  have h: "0 \<le> h" "h \<le> pow2 (- 60)" by (simp_all add: h_def pow2_def)
  have d2: "1 / d \<le> 2" using d(2) by (simp add: pow2_def)
  have "(r + h) / d \<le> (d + h) / d" using assms(6) d(1) by (intro divide_right_mono) simp_all
  also have "\<dots> = 1 + h * (1 / d)" using d(1) by (simp add: field_simps)
  also have "\<dots> \<le> 1 + h * 2" using d2 h(1) by (intro add_mono mult_left_mono) simp_all
  finally have S: "x1 + x2 \<le> 1 + 2 * h" using assms(5) by simp
  have "v1 + v2 \<le> (x1 + h) / d + (x2 + h) / d" using assms(3,4) by linarith
  also have "\<dots> = (x1 + x2 + 2 * h) * (1 / d)" by (simp add: add_divide_distrib field_simps)
  also have "\<dots> \<le> (1 + 4 * h) * (1 / d)" using S d(1) by (intro mult_right_mono) simp_all
  also have "\<dots> \<le> (1 + 4 * h) * (1 + pow2 (- 52))"
    using d(2) h(1) by (intro mult_left_mono) simp_all
  also have "\<dots> \<le> (1 + 4 * pow2 (- 60)) * (1 + pow2 (- 52))"
    using h(2) by (intro mult_right_mono) simp_all
  also have "\<dots> < 1 + pow2 (- 50)" by (simp add: pow2_def)
  finally show ?thesis .
qed

lemma exact_bound3:
  fixes v1 v2 v3 x1 x2 x3 s r :: real
  defines "h \<equiv> pow2 (- 1075)" and "d \<equiv> 1 - pow2 (- 53)"
  assumes "v1 \<le> (x1 + h) / d" "v2 \<le> (x2 + h) / d" "v3 \<le> (x3 + h) / d"
    "x1 + x2 \<le> (s + h) / d" "s + x3 \<le> (r + h) / d" "r \<le> d" "0 \<le> x3"
  shows "v1 + v3 + v2 < 1 + pow2 (- 50)"
proof -
  have d: "0 < d" "1 / d \<le> 1 + pow2 (- 52)" "1 \<le> 1 / d"
    by (simp_all add: d_def pow2_def field_simps)
  have h: "0 \<le> h" "h \<le> pow2 (- 60)" by (simp_all add: h_def pow2_def)
  have d2: "1 / d \<le> 2" using d(2) by (simp add: pow2_def)
  have "(r + h) / d \<le> (d + h) / d" using assms(8) d(1) by (intro divide_right_mono) simp_all
  also have "\<dots> = 1 + h * (1 / d)" using d(1) by (simp add: field_simps)
  also have "\<dots> \<le> 1 + h * 2" using d2 h(1) by (intro add_mono mult_left_mono) simp_all
  finally have S2: "s + x3 \<le> 1 + 2 * h" using assms(7) by simp
  have "x3 \<le> x3 * (1 / d)" using d(3) assms(9) mult_left_mono [of 1 "1 / d" x3] by simp
  then have "x1 + x2 + x3 \<le> (s + h) * (1 / d) + x3 * (1 / d)" using assms(6) by simp
  also have "\<dots> = (s + x3 + h) * (1 / d)" by (simp add: add_divide_distrib)
  also have "\<dots> \<le> (1 + 3 * h) * (1 / d)" using S2 d(1) by (intro mult_right_mono) simp_all
  also have "\<dots> \<le> (1 + 3 * h) * (1 + pow2 (- 52))"
    using d(2) h(1) by (intro mult_left_mono) simp_all
  finally have S3: "x1 + x2 + x3 \<le> (1 + 3 * h) * (1 + pow2 (- 52))" .
  have "v1 + v3 + v2 \<le> (x1 + h) / d + (x3 + h) / d + (x2 + h) / d" using assms(3,4,5) by linarith
  also have "\<dots> = (x1 + x2 + x3 + 3 * h) * (1 / d)" by (simp add: add_divide_distrib field_simps)
  also have "\<dots> \<le> ((1 + 3 * h) * (1 + pow2 (- 52)) + 3 * h) * (1 / d)"
    using S3 d(1) by (intro mult_right_mono) simp_all
  also have "\<dots> \<le> ((1 + 3 * h) * (1 + pow2 (- 52)) + 3 * h) * (1 + pow2 (- 52))"
    using d(2) h(1) by (intro mult_left_mono) simp_all
  also have "\<dots> \<le> ((1 + 3 * pow2 (- 60)) * (1 + pow2 (- 52)) + 3 * pow2 (- 60)) * (1 + pow2 (- 52))"
    using h(2) by (intro mult_right_mono add_mono) simp_all
  also have "\<dots> < 1 + pow2 (- 50)" by (simp add: pow2_def)
  finally show ?thesis .
qed

text \<open>
  The exact total implied probability of the legs of a returned opportunity is below
  \<open>1 + 2^(-50)\<close>.
\<close>

lemma exact_total_bound:
  assumes "calculateArbitrage odds = Inr (Some opp)"
  shows "spec_exactTotal opp < 1 + pow2 (- 50)"
  using calculateArbitrage_Some[OF assms]
proof
  assume "calculate2WayArbitrage odds = Inr (Some opp)"
  then show ?thesis
  proof (rule calc2_Some)
    fix b1 b2 r q qs
    assume b: "bestOdds2Way odds = (b1, b2)"
      and t: "js_add (js_div (Num 1) (best_odds b1)) (js_div (Num 1) (best_odds b2)) = Num r"
      and r: "r < 1"
      and opp: "opp = \<lparr>exists_flag = True,
       profit_percentage = toFixed2 (js_mul (js_sub (js_div (Num 1) (Num r)) (Num 1)) (Num 100)),
       bets = [\<lparr>outcome = team1 q, bet_bookmaker = best_bookmaker b1, bet_odds = best_odds b1,
                 stake_pct = toFixed2 (js_mul (js_div (js_div (Num 1) (best_odds b1)) (Num r)) (Num 100))\<rparr>,
               \<lparr>outcome = team2 q, bet_bookmaker = best_bookmaker b2, bet_odds = best_odds b2,
                 stake_pct = toFixed2 (js_mul (js_div (js_div (Num 1) (best_odds b2)) (Num r)) (Num 100))\<rparr>]\<rparr>"
    have o: "ge0 (best_odds b1)" "ge0 (best_odds b2)"
      using bests2_ok[OF b] by (simp_all add: okBest_ge0)
    have g: "ge0 (js_div (Num 1) (best_odds b1))" "ge0 (js_div (Num 1) (best_odds b2))"
      using o by (simp_all add: ge0_inverse)
    from ge0_add_Num[OF g t r] obtain x1 x2
      where x: "js_div (Num 1) (best_odds b1) = Num x1" "js_div (Num 1) (best_odds b2) = Num x2"
        "to_double (x1 + x2) = Num r" by blast
    note l1 = leg_exact[OF o(1) x(1)] and l2 = leg_exact[OF o(2) x(2)]
    have "0 \<le> x1 + x2" using l1(2) l2(2) by simp
    note s = to_double_inverse_bound(1)[OF this x(3)]
    have gap: "r \<le> 1 - pow2 (- 53)" using g t r by (rule total_gap)
    have "spec_exactProb (best_odds b1) + spec_exactProb (best_odds b2) < 1 + pow2 (- 50)"
      using l1(1) l2(1) s gap by (rule exact_bound2)
    then show ?thesis by (simp add: spec_exactTotal_def opp)
  qed
next
  assume "calculate3WayArbitrage odds = Inr (Some opp)"
  then show ?thesis
  proof (rule calc3_Some)
    fix b1 b2 b3 r q qs
    assume b: "bestOdds3Way odds = (b1, b2, b3)"
      and t: "js_add (js_add (js_div (Num 1) (best_odds b1)) (js_div (Num 1) (best_odds b2)))
       (js_div (Num 1) (best_odds b3)) = Num r"
      and r: "r < 1"
      and opp: "opp = \<lparr>exists_flag = True,
       profit_percentage = toFixed2 (js_mul (js_sub (js_div (Num 1) (Num r)) (Num 1)) (Num 100)),
       bets = [\<lparr>outcome = team1 q, bet_bookmaker = best_bookmaker b1, bet_odds = best_odds b1,
                 stake_pct = toFixed2 (js_mul (js_div (js_div (Num 1) (best_odds b1)) (Num r)) (Num 100))\<rparr>,
               \<lparr>outcome = ''Draw'', bet_bookmaker = best_bookmaker b3, bet_odds = best_odds b3,
                 stake_pct = toFixed2 (js_mul (js_div (js_div (Num 1) (best_odds b3)) (Num r)) (Num 100))\<rparr>,
               \<lparr>outcome = team2 q, bet_bookmaker = best_bookmaker b2, bet_odds = best_odds b2,
                 stake_pct = toFixed2 (js_mul (js_div (js_div (Num 1) (best_odds b2)) (Num r)) (Num 100))\<rparr>]\<rparr>"
    have o: "ge0 (best_odds b1)" "ge0 (best_odds b2)" "ge0 (best_odds b3)"
      using bests3_ok[OF b] by (simp_all add: okBest_ge0)
    have g: "ge0 (js_div (Num 1) (best_odds b1))" "ge0 (js_div (Num 1) (best_odds b2))"
      "ge0 (js_div (Num 1) (best_odds b3))"
      using o by (simp_all add: ge0_inverse)
    have g12: "ge0 (js_add (js_div (Num 1) (best_odds b1)) (js_div (Num 1) (best_odds b2)))"
      using g(1,2) by (rule ge0_add)
    from ge0_add_Num[OF g12 g(3) t r] obtain s x3
      where s: "js_add (js_div (Num 1) (best_odds b1)) (js_div (Num 1) (best_odds b2)) = Num s"
        "js_div (Num 1) (best_odds b3) = Num x3" "s < 1" "0 \<le> s" "to_double (s + x3) = Num r"
      by blast
    from ge0_add_Num[OF g(1,2) s(1,3)] obtain x1 x2
      where x: "js_div (Num 1) (best_odds b1) = Num x1" "js_div (Num 1) (best_odds b2) = Num x2"
        "to_double (x1 + x2) = Num s" by blast
    note l1 = leg_exact[OF o(1) x(1)] and l2 = leg_exact[OF o(2) x(2)]
      and l3 = leg_exact[OF o(3) s(2)]
    have "0 \<le> x1 + x2" using l1(2) l2(2) by simp
    note s12 = to_double_inverse_bound(1)[OF this x(3)]
    have "0 \<le> s + x3" using s(4) l3(2) by simp
    note s3 = to_double_inverse_bound(1)[OF this s(5)]
    have gap: "r \<le> 1 - pow2 (- 53)" using g12 g(3) t r by (rule total_gap)
    have "spec_exactProb (best_odds b1) + spec_exactProb (best_odds b3)
        + spec_exactProb (best_odds b2) < 1 + pow2 (- 50)"
      using l1(1) l2(1) l3(1) s12 s3 gap l3(2) by (rule exact_bound3)
    then show ?thesis by (simp add: spec_exactTotal_def opp)
  qed
qed

section \<open>The example inputs evaluated\<close>

lemmas double_eval =
  to_double_def nearest_def quantum_def expo_def round_even_def pow2_def compute_bitlen Let_def

lemma quotesArb_result: "calculateArbitrage quotesArb = Inr (Some oppArb)"
  by (simp add: calculateArbitrage_def hasDrawOdds_def quotesArb_def mkQuote_def
      calculate2WayArbitrage_def bestOdds2Way_def better_def noBest_def js_sub_def
      round2_def oppArb_def double_eval)

lemma quotes3Way_result: "calculateArbitrage quotes3Way = Inr (Some opp3Way)"
  by (simp add: calculateArbitrage_def hasDrawOdds_def quotes3Way_def mkQuote_def
      calculate3WayArbitrage_def bestOdds3Way_def better_def betterDraw_def noBest_def js_sub_def
      round2_def opp3Way_def double_eval)

lemma quotesThin_result: "calculateArbitrage quotesThin = Inr (Some oppThin)"
  by (simp add: calculateArbitrage_def hasDrawOdds_def quotesThin_def mkQuote_def
      calculate2WayArbitrage_def bestOdds2Way_def better_def noBest_def js_sub_def
      round2_def oppThin_def double_eval)

lemma quotesEven_result: "calculateArbitrage quotesEven = Inr (Some oppEven)"
  by (simp add: calculateArbitrage_def hasDrawOdds_def quotesEven_def mkQuote_def
      calculate3WayArbitrage_def bestOdds3Way_def better_def betterDraw_def noBest_def js_sub_def
      round2_def oppEven_def double_eval)

lemma quotesEven_total: "totalImpliedProb quotesEven = Num (1 - pow2 (- 53))"
  by (simp add: totalImpliedProb_def totalImpliedProb3Way_def hasDrawOdds_def quotesEven_def
      mkQuote_def bestOdds3Way_def better_def betterDraw_def noBest_def double_eval)

lemma quotesTie_result: "calculateArbitrage quotesTie = Inr (Some oppTie)"
  by (simp add: calculateArbitrage_def hasDrawOdds_def quotesTie_def mkQuote_def
      calculate2WayArbitrage_def bestOdds2Way_def better_def noBest_def js_sub_def
      round2_def oppTie_def double_eval)

lemma quotesTie_stakes:
  "stakePcts quotesTie
     = [Num (6553089301544959 / 70368744177664), Num (7740561859543039 / 1125899906842624)]"
  by (simp add: stakePcts_def stakePcts2Way_def hasDrawOdds_def quotesTie_def mkQuote_def
      bestOdds2Way_def better_def noBest_def double_eval)

lemma quotesInf_result: "calculateArbitrage quotesInf = Inr (Some oppInf)"
  by (simp add: calculateArbitrage_def hasDrawOdds_def quotesInf_def mkQuote_def
      calculate2WayArbitrage_def bestOdds2Way_def better_def noBest_def js_sub_def
      oppInf_def)

lemma quotesLow_best:
  "bestOdds2Way quotesLow =
     (\<lparr>best_odds = Num (1 / 2), best_bookmaker = Some ''Bet365''\<rparr>,
      \<lparr>best_odds = Num 3, best_bookmaker = Some ''Bet365''\<rparr>)"
  by (simp add: quotesLow_def mkQuote_def bestOdds2Way_def better_def noBest_def double_eval)

lemma quotesLowDraw_result: "calculateArbitrage quotesLowDraw = Inr None"
  by (simp add: calculateArbitrage_def hasDrawOdds_def quotesLowDraw_def mkQuote_def
      calculate3WayArbitrage_def bestOdds3Way_def better_def betterDraw_def noBest_def double_eval)

lemma quotesLowDraw_2way: "calculate2WayArbitrage quotesLowDraw = Inr (Some oppArb)"
  by (simp add: quotesLowDraw_def mkQuote_def
      calculate2WayArbitrage_def bestOdds2Way_def better_def noBest_def js_sub_def
      round2_def oppArb_def double_eval)

lemma quotesThin_profit: "profitPercentage quotesThin = Num (55180352225 / 562949953421312)"
  by (simp add: profitPercentage_def totalImpliedProb_def totalImpliedProb2Way_def hasDrawOdds_def
      quotesThin_def mkQuote_def bestOdds2Way_def better_def noBest_def js_sub_def double_eval)

section \<open>Properties of the match identifiers and of the on-demand scraper\<close>

text \<open>Sorting a pair does not depend on the order of its elements.\<close>

lemma sort_pair: "sort [x, y] = sort [y, x]" for x y :: "'a::linorder"
  by (auto simp: insort_is_Cons)

lemma normalized_sym: "normalized a b = normalized b a"
  by (simp only: normalized_def list.map sort_pair[of "replace_spaces (toLowerCase a)"])

lemma generateMatchId_example: "generateMatchId ''Liverpool'' ''Arsenal'' = ''match_arsenal_liverpool''"
  by (simp add: generateMatchId_def normalized_def toLowerCase_def toLowerCase_char_def is_space_def)

lemma filter_update_length:
  "i < length xs \<Longrightarrow>
   length (filter P (xs[i := y])) + (if P (xs ! i) then 1 else 0)
     = length (filter P xs) + (if P y then 1 else 0)"
proof (induction xs arbitrary: i)
  case Nil
  then show ?case by simp
next
  case (Cons x xs)
  show ?case
  proof (cases i)
    case 0
    then show ?thesis by simp
  next
    case (Suc j)
    with Cons.prems have "j < length xs" by simp
    from Cons.IH[OF this] Suc show ?thesis by simp
  qed
qed

lemma list_all_update: "list_all P xs \<Longrightarrow> P y \<Longrightarrow> list_all P (xs[i := y])"
  by (induction xs arbitrary: i) (auto split: nat.splits)

lemma list_ex_update:
  "list_ex P (xs[i := y]) \<Longrightarrow> \<not> P y \<Longrightarrow> list_ex P xs"
  by (induction xs arbitrary: i) (auto split: nat.splits)

lemma waitLoop_not_Idle [simp]: "waitLoop g w \<noteq> Idle"
  by (simp add: waitLoop_def)

lemma waitLoop_not_inFlight [simp]: "\<not> inFlight (waitLoop g w)"
  by (simp add: waitLoop_def)

lemma waitLoop_logOK [simp]: "logOK (waitLoop g w) l \<longleftrightarrow> l = []"
  by (simp add: waitLoop_def)

text \<open>All the segments of a call, by the state before.\<close>

lemma getOrScrapeData_cases:
  assumes "getOrScrapeData g p ev = Some (g', p', effs)"
  obtains
    (fresh) now now' where "p = Idle" "ev = Call now now'" "\<not> needsFreshData g now"
      "g' = g" "p' = Returned (Cached (cacheAge g now'))" "effs = []"
  | (wait) now now' where "p = Idle" "ev = Call now now'" "needsFreshData g now" "isScraping g"
      "g' = g" "p' = waitLoop g 0" "effs = []"
  | (fetch) now now' where "p = Idle" "ev = Call now now'" "needsFreshData g now"
      "\<not> isScraping g" "g' = g\<lparr>isScraping := True\<rparr>" "p' = Fetching" "effs = [Fetch]"
  | (tick) waited where "p = Waiting waited" "ev = Tick" "g' = g"
      "p' = waitLoop g (waited + 1000)" "effs = []"
  | (fetchRejected) e where "p = Fetching" "ev = FetchRejected e"
      "g' = g\<lparr>isScraping := False\<rparr>" "p' = Threw e" "effs = []"
  | (noOdds) "p = Fetching" "ev = FetchResolved []"
      "g' = g\<lparr>isScraping := False\<rparr>" "p' = Returned NoOdds" "effs = []"
  | (store) allOdds where "p = Fetching" "ev = FetchResolved allOdds" "allOdds \<noteq> []"
      "g' = g" "p' = Storing allOdds" "effs = [Store]"
  | (storeRejected) allOdds e where "p = Storing allOdds" "ev = StoreRejected e"
      "g' = g\<lparr>isScraping := False\<rparr>" "p' = Threw e" "effs = []"
  | (detect) allOdds where "p = Storing allOdds" "ev = StoreResolved"
      "g' = g" "p' = Detecting allOdds" "effs = [Detect]"
  | (finished) allOdds now where "p = Detecting allOdds" "ev = DetectResolved now"
      "g' = g\<lparr>lastScrapeTime := Some now, isScraping := False\<rparr>"
      "p' = Returned (Scraped (length allOdds))" "effs = []"
proof (cases p)
  case Idle
  then show ?thesis using assms fresh wait fetch by (cases ev) (auto split: if_splits)
next
  case (Waiting w)
  then show ?thesis using assms tick by (cases ev) auto
next
  case Fetching
  then show ?thesis using assms fetchRejected noOdds store
    by (cases ev) (auto split: if_splits)
next
  case (Storing allOdds)
  then show ?thesis using assms storeRejected detect by (cases ev) auto
next
  case (Detecting allOdds)
  then show ?thesis using assms finished by (cases ev) auto
next
  case (Returned r)
  then show ?thesis using assms by simp
next
  case (Threw e)
  then show ?thesis using assms by simp
qed

lemma resume_Some:
  assumes "resume s i ev = Some s'"
  obtains g' p' effs where "i < length (calls s)"
    "getOrScrapeData (shared s) (fst (calls s ! i)) ev = Some (g', p', effs)"
    "shared s' = g'" "calls s' = (calls s)[i := (p', snd (calls s ! i) @ effs)]"
    "fetches s' = fetches s + count_list effs Fetch"
  using assms by (auto simp: resume_def split: if_splits option.splits)

lemma getOrScrapeData_not_Idle: "getOrScrapeData g p ev = Some (g', p', effs) \<Longrightarrow> p' \<noteq> Idle"
  by (erule getOrScrapeData_cases) auto

lemma getOrScrapeData_logOK: "getOrScrapeData g p ev = Some (g', p', effs) \<Longrightarrow> logOK p l \<Longrightarrow> logOK p' (l @ effs)"
  by (erule getOrScrapeData_cases) auto

lemma resume_logsOK:
  assumes "resume s i ev = Some s'" "logsOK s"
  shows "logsOK s'"
  using assms(1)
proof (rule resume_Some)
  fix g' p' effs
  assume i: "i < length (calls s)"
    and st: "getOrScrapeData (shared s) (fst (calls s ! i)) ev = Some (g', p', effs)"
    and c: "calls s' = (calls s)[i := (p', snd (calls s ! i) @ effs)]"
  have "logOK (fst (calls s ! i)) (snd (calls s ! i))"
    using assms(2) i by (simp add: logsOK_def list_all_length)
  from getOrScrapeData_logOK[OF st this] have "logOK p' (snd (calls s ! i) @ effs)" .
  with assms(2) show ?thesis unfolding logsOK_def c by (intro list_all_update) simp_all
qed

lemma resume_mutex:
  assumes "resume s i ev = Some s'" "mutex s"
  shows "mutex s'"
  using assms(1)
proof (rule resume_Some)
  fix g' p' effs
  let ?P = "\<lambda>c. inFlight (fst c)"
  let ?p = "fst (calls s ! i)"
  assume i: "i < length (calls s)"
    and st: "getOrScrapeData (shared s) ?p ev = Some (g', p', effs)"
    and g: "shared s' = g'"
    and c: "calls s' = (calls s)[i := (p', snd (calls s ! i) @ effs)]"
  have upd: "length (filter ?P (calls s')) + (if inFlight ?p then 1 else 0)
      = length (filter ?P (calls s)) + (if inFlight p' then 1 else 0)"
    using filter_update_length[OF i, of ?P "(p', snd (calls s ! i) @ effs)"] c by simp
  have m: "length (filter ?P (calls s)) = (if isScraping (shared s) then 1 else 0)"
    using assms(2) by (simp add: mutex_def)
  from st show ?thesis
    by (rule getOrScrapeData_cases) (use upd m g in \<open>auto simp: mutex_def split: if_splits\<close>)
qed

lemma sum_list_update:
  fixes f :: "'a \<Rightarrow> nat"
  shows "i < length xs \<Longrightarrow>
    sum_list (map f (xs[i := y])) + f (xs ! i) = sum_list (map f xs) + f y"
proof (induction xs arbitrary: i)
  case Nil
  then show ?case by simp
next
  case (Cons x xs)
  show ?case
  proof (cases i)
    case 0
    then show ?thesis by simp
  next
    case (Suc j)
    with Cons.prems have "j < length xs" by simp
    from Cons.IH[OF this] Suc show ?thesis by simp
  qed
qed

lemma resume_counted:
  assumes "resume s i ev = Some s'" "counted s"
  shows "counted s'"
  using assms(1)
proof (rule resume_Some)
  fix g' p' effs
  let ?f = "\<lambda>c::pc \<times> effect list. count_list (snd c) Fetch"
  assume i: "i < length (calls s)"
    and c: "calls s' = (calls s)[i := (p', snd (calls s ! i) @ effs)]"
    and f: "fetches s' = fetches s + count_list effs Fetch"
  from sum_list_update[OF i, of ?f "(p', snd (calls s ! i) @ effs)"]
  have "sum_list (map ?f (calls s')) = sum_list (map ?f (calls s)) + count_list effs Fetch"
    unfolding c by simp
  with assms(2) f show ?thesis by (simp add: counted_def)
qed

lemma resume_not_allIdle:
  assumes "resume s i ev = Some s'"
  shows "\<not> allIdle s'"
  using assms
proof (rule resume_Some)
  fix g' p' effs
  assume i: "i < length (calls s)"
    and st: "getOrScrapeData (shared s) (fst (calls s ! i)) ev = Some (g', p', effs)"
    and c: "calls s' = (calls s)[i := (p', snd (calls s ! i) @ effs)]"
  have "i < length (calls s')" "fst (calls s' ! i) = p'" using i c by simp_all
  with getOrScrapeData_not_Idle[OF st] show ?thesis by (auto simp: allIdle_def list_all_length)
qed

lemma resume_someIdle:
  assumes "resume s i ev = Some s'" "someIdle s'"
  shows "someIdle s"
  using assms(1)
proof (rule resume_Some)
  fix g' p' effs
  assume st: "getOrScrapeData (shared s) (fst (calls s ! i)) ev = Some (g', p', effs)"
    and c: "calls s' = (calls s)[i := (p', snd (calls s ! i) @ effs)]"
  from assms(2) have "list_ex (\<lambda>c. fst c = Idle) ((calls s)[i := (p', snd (calls s ! i) @ effs)])"
    by (simp add: someIdle_def c)
  then show ?thesis unfolding someIdle_def
    by (rule list_ex_update) (use getOrScrapeData_not_Idle[OF st] in simp)
qed

lemma idle_someIdle: "i < length (calls s) \<Longrightarrow> fst (calls s ! i) = Idle \<Longrightarrow> someIdle s"
  by (auto simp: someIdle_def list_ex_length)

lemma allIdle_nth: "allIdle s \<Longrightarrow> i < length (calls s) \<Longrightarrow> fst (calls s ! i) = Idle"
  by (simp add: allIdle_def list_all_length)

lemma resume_singleFlight:
  assumes ss: "resume s i ev = Some s'"
    and conc: "\<not> (endsRefresh s s' \<and> someIdle s)"
    and stale: "staleEvent g0 ev"
    and g0: "\<not> isScraping g0"
    and inv: "singleFlight g0 s"
  shows "singleFlight g0 s'"
  using ss
proof (rule resume_Some)
  fix g' p' effs
  let ?p = "fst (calls s ! i)"
  assume i: "i < length (calls s)"
    and st: "getOrScrapeData (shared s) ?p ev = Some (g', p', effs)"
    and g: "shared s' = g'"
    and f: "fetches s' = fetches s + count_list effs Fetch"
  note na = resume_not_allIdle[OF ss]
  have idle: "someIdle s' \<Longrightarrow> someIdle s" by (rule resume_someIdle[OF ss])
  from inv show ?thesis unfolding singleFlight_def
  proof
    assume a: "allIdle s \<and> fetches s = 0 \<and> shared s = g0"
    then have p: "?p = Idle" using i by (simp add: allIdle_nth)
    from st show "allIdle s' \<and> fetches s' = 0 \<and> shared s' = g0 \<or>
        \<not> allIdle s' \<and> fetches s' = 1 \<and> (isScraping (shared s') \<or> \<not> someIdle s')"
      by (rule getOrScrapeData_cases) (use p a stale g0 na g f in \<open>auto simp: staleEvent_def\<close>)
  next
    assume b: "\<not> allIdle s \<and> fetches s = 1 \<and> (isScraping (shared s) \<or> \<not> someIdle s)"
    have pi: "?p = Idle \<Longrightarrow> isScraping (shared s)" using b idle_someIdle[OF i] by blast
    have e: "isScraping (shared s) \<Longrightarrow> \<not> isScraping g' \<Longrightarrow> \<not> someIdle s"
      using conc g by (auto simp: endsRefresh_def)
    from st show "allIdle s' \<and> fetches s' = 0 \<and> shared s' = g0 \<or>
        \<not> allIdle s' \<and> fetches s' = 1 \<and> (isScraping (shared s') \<or> \<not> someIdle s')"
      by (rule getOrScrapeData_cases) (use b pi e idle na g f in auto)
  qed
qed

lemma eventLoop_inv:
  "eventLoop conc s tr = Some s' \<Longrightarrow> mutex s \<Longrightarrow> logsOK s \<Longrightarrow> counted s \<Longrightarrow>
   mutex s' \<and> logsOK s' \<and> counted s'"
proof (induction tr arbitrary: s)
  case Nil
  then show ?case by simp
next
  case (Cons a tr)
  obtain i ev where a: "a = (i, ev)" by (cases a)
  from Cons.prems(1) a obtain s1 where s1: "resume s i ev = Some s1" "eventLoop conc s1 tr = Some s'"
    by (auto split: option.splits if_splits)
  from resume_mutex[OF s1(1) Cons.prems(2)] resume_logsOK[OF s1(1) Cons.prems(3)]
    resume_counted[OF s1(1) Cons.prems(4)]
  show ?case by (rule Cons.IH[OF s1(2)])
qed

lemma eventLoop_singleFlight:
  "eventLoop True s tr = Some s' \<Longrightarrow> staleCalls g0 tr \<Longrightarrow> \<not> isScraping g0 \<Longrightarrow>
   singleFlight g0 s \<Longrightarrow> singleFlight g0 s'"
proof (induction tr arbitrary: s)
  case Nil
  then show ?case by simp
next
  case (Cons a tr)
  obtain i ev where a: "a = (i, ev)" by (cases a)
  from Cons.prems(1) a obtain s1 where s1: "resume s i ev = Some s1"
    "\<not> (endsRefresh s s1 \<and> someIdle s)" "eventLoop True s1 tr = Some s'"
    by (auto split: option.splits if_splits)
  from Cons.prems(2) a have st: "staleEvent g0 ev" "staleCalls g0 tr"
    by (simp_all add: staleCalls_def staleEvent_def)
  from resume_singleFlight[OF s1(1,2) st(1) Cons.prems(3,4)]
  show ?case by (rule Cons.IH[OF s1(3) st(2) Cons.prems(3)])
qed

lemma notCalled_inv:
  "\<not> isScraping g \<Longrightarrow>
   mutex (notCalled g n) \<and> logsOK (notCalled g n) \<and> counted (notCalled g n) \<and> singleFlight g (notCalled g n)"
  by (simp add: mutex_def logsOK_def counted_def singleFlight_def notCalled_def allIdle_def
      list_all_length)

lemma eventLoop_length: "eventLoop conc s tr = Some s' \<Longrightarrow> length (calls s') = length (calls s)"
proof (induction tr arbitrary: s)
  case Nil
  then show ?case by simp
next
  case (Cons a tr)
  obtain i ev where a: "a = (i, ev)" by (cases a)
  from Cons.prems(1) a obtain s1 where s1: "resume s i ev = Some s1" "eventLoop conc s1 tr = Some s'"
    by (auto split: option.splits if_splits)
  have "length (calls s1) = length (calls s)" using s1(1) by (rule resume_Some) simp
  with Cons.IH[OF s1(2)] show ?case by simp
qed

text \<open>While a refresh is in flight, the segments of the other calls leave the cache status as it is.\<close>

lemma getOrScrapeData_other_call:
  assumes "getOrScrapeData g p ev = Some (g', p', effs)" "isScraping g" "\<not> inFlight p"
  shows "g' = g \<and> effs = [] \<and> \<not> inFlight p'"
  using assms(1) by (rule getOrScrapeData_cases) (use assms(2,3) in auto)

lemma needsFreshData_iff:
  "needsFreshData g now \<longleftrightarrow>
     lastScrapeTime g = None \<or> lastScrapeTime g = Some 0
     \<or> (\<exists>t. lastScrapeTime g = Some t \<and> 1800000 < now - t)"
  by (auto simp: needsFreshData_def CACHE_DURATION_def split: option.splits)


text \<open>
  The wait in \<open>waitForScrape\<close> is bounded: a waiting call run on its own returns after
  finitely many ticks of the timer, whether or not the flag is ever cleared.
\<close>

lemma waitForScrape_returns:
  "\<exists>k. runCall g (Waiting waited) (replicate k Tick) = Some (g, Returned Waited, [])"
proof (induction waited rule: measure_induct_rule[where f = "\<lambda>w. nat (maxWait - w)"])
  case (less w)
  show ?case
  proof (cases "isScraping g \<and> w + 1000 < maxWait")
    case True
    then have "nat (maxWait - (w + 1000)) < nat (maxWait - w)" by simp
    from less.IH[OF this] obtain k
      where k: "runCall g (Waiting (w + 1000)) (replicate k Tick) = Some (g, Returned Waited, [])"
      by blast
    have "runCall g (Waiting w) (replicate (Suc k) Tick) = Some (g, Returned Waited, [])"
      using True k by (simp add: waitLoop_def)
    then show ?thesis by blast
  next
    case False
    then have "runCall g (Waiting w) (replicate (Suc 0) Tick) = Some (g, Returned Waited, [])"
      by (auto simp: waitLoop_def)
    then show ?thesis by blast
  qed
qed

text \<open>The example runs evaluated.\<close>

lemma threeCalls_run: "eventLoop True (notCalled started 3) threeCalls = Some afterThreeCalls"
  by (simp add: threeCalls_def afterThreeCalls_def notCalled_def started_def resume_def
      needsFreshData_def waitLoop_def maxWait_def endsRefresh_def someIdle_def quotesArb_def
      eval_nat_numeral)

lemma emptyFetch_run: "eventLoop True (notCalled started 1) emptyFetch = Some afterEmptyFetch"
  by (simp add: emptyFetch_def afterEmptyFetch_def notCalled_def started_def resume_def
      needsFreshData_def endsRefresh_def someIdle_def eval_nat_numeral)

text \<open>
  Both versions give one identifier for the two orders of a pair, and the identifier of
  the first is a function of the two normalized names alone.
\<close>

lemma generateMatchId_sym: "generateMatchId a b = generateMatchId b a"
  by (simp only: generateMatchId_def normalized_sym[of a b])

lemma generateMatchId_mock_sym: "generateMatchId_mock now a b = generateMatchId_mock now b a"
  by (simp only: generateMatchId_mock_def normalized_sym[of a b])

lemma generateMatchId_normalized:
  assumes "replace_spaces (toLowerCase a) = replace_spaces (toLowerCase a')"
    and "replace_spaces (toLowerCase b) = replace_spaces (toLowerCase b')"
  shows "generateMatchId a b = generateMatchId a' b'" "generateMatchId a b = generateMatchId b' a'"
proof -
  show 1: "generateMatchId a b = generateMatchId a' b'"
    using assms by (simp add: generateMatchId_def normalized_def)
  show "generateMatchId a b = generateMatchId b' a'"
    unfolding 1 by (rule generateMatchId_sym)
qed

section \<open>Claims about the arbitrage calculator\<close>

text \<open>
  Claim C1, amended.  For a list of two or more quotes, \<open>calculateArbitrage\<close> never
  raises, and it returns an opportunity if and only if every outcome of the event has a
  valid best price and the sum of \<open>1 / bestPrice\<close> over the outcomes, computed in double
  arithmetic as side A plus side B plus the draw, is strictly below 1; otherwise it
  returns \<open>null\<close>.  The best price of an outcome is the maximum of the prices greater
  than 0 quoted for it, and the draw is an outcome when some quote carries a draw price
  greater than 0.  The legs of the opportunity are side A, the draw, side B, each at its
  best price.  The opportunity's \<open>profit_percentage\<close> is \<open>(1 / total - 1) * 100\<close> and
  each leg's \<open>stake_pct\<close> is \<open>impliedProb / total * 100\<close>, computed in double arithmetic
  and passed through \<open>toFixed(2)\<close>, that is, rounded to two decimal places.
\<close>

theorem C1_calculateArbitrage_detects:
  assumes len: "2 \<le> length odds"
  shows "case calculateArbitrage odds of
      Inl e \<Rightarrow> False
    | Inr None \<Rightarrow>
        \<not> (\<exists>ps. spec_impliedProbs (map odds1 odds) (map odds2 odds) (map draw_odds odds) = Some ps
               \<and> js_gt (Num 1) (spec_total ps))
    | Inr (Some opp) \<Rightarrow>
        (\<exists>ps. spec_impliedProbs (map odds1 odds) (map odds2 odds) (map draw_odds odds) = Some ps
           \<and> js_gt (Num 1) (spec_total ps)
           \<and> map (\<lambda>leg. js_div (Num 1) (bet_odds leg)) (bets opp) = ps
           \<and> profit_percentage opp
               = toFixed2 (js_mul (js_sub (js_div (Num 1) (spec_total ps)) (Num 1)) (Num 100))
           \<and> map stake_pct (bets opp)
               = map (\<lambda>p. toFixed2 (js_mul (js_div p (spec_total ps)) (Num 100))) ps)"
proof -
  from len obtain q qs where odds: "odds = q # qs" by (cases odds) auto
  define A where "A = spec_bestPrice (map odds1 odds)"
  define B where "B = spec_bestPrice (map odds2 odds)"
  define D where "D = spec_bestPrice [d. Some d \<leftarrow> map draw_odds odds]"
  define b1 where "b1 = foldl (better odds1) noBest odds"
  define b2 where "b2 = foldl (better odds2) noBest odds"
  define b3 where "b3 = foldl betterDraw noBest odds"
  define p1 where "p1 = js_div (Num 1) (best_odds b1)"
  define p2 where "p2 = js_div (Num 1) (best_odds b2)"
  define p3 where "p3 = js_div (Num 1) (best_odds b3)"
  have a: "best_odds b1 = (case A of None \<Rightarrow> Num 0 | Some v \<Rightarrow> v)"
    unfolding b1_def A_def by (rule best1_spec)
  have b: "best_odds b2 = (case B of None \<Rightarrow> Num 0 | Some v \<Rightarrow> v)"
    unfolding b2_def B_def by (rule best1_spec)
  have d: "best_odds b3 = (case D of None \<Rightarrow> Num 0 | Some v \<Rightarrow> v)"
    unfolding b3_def D_def by (rule bestDraw_spec)
  have ok: "ge0 (best_odds b1)" "ge0 (best_odds b2)" "ge0 (best_odds b3)"
    unfolding b1_def b2_def b3_def
    by (simp_all add: okBest_ge0 fold_better_ok fold_betterDraw_ok okBest_noBest)
  have g: "ge0 p1" "ge0 p2" "ge0 p3"
    unfolding p1_def p2_def p3_def using ok by (simp_all add: ge0_inverse)
  show ?thesis
  proof (cases "hasDrawOdds odds")
    case False
    then have nd: "D = None" by (simp add: hasDrawOdds_spec D_def)
    have ca: "calculateArbitrage odds = calculate2WayArbitrage odds"
      using len False by (simp add: calculateArbitrage_def)
    define t where "t = js_add p1 p2"
    note c2 = calc2_eq [OF odds b1_def b2_def p1_def p2_def t_def]
    have sp: "spec_impliedProbs (map odds1 odds) (map odds2 odds) (map draw_odds odds)
        = those [map_option (js_div (Num 1)) A, map_option (js_div (Num 1)) B]"
      using nd by (simp add: spec_impliedProbs_def spec_outcomes_def spec_impliedProb_def
          A_def B_def D_def del: those.simps)
    show ?thesis
    proof (cases "A = None \<or> B = None")
      case True
      then have "js_ge t (Num 1)"
        using a b g unpriced_total [of p1] unpriced_total [of p2]
        by (auto simp: t_def p1_def p2_def)
      moreover have "spec_impliedProbs (map odds1 odds) (map odds2 odds) (map draw_odds odds) = None"
        using True by (auto simp: sp split: option.splits)
      ultimately show ?thesis by (simp add: ca c2)
    next
      case False
      then obtain va vb where v: "A = Some va" "B = Some vb" by auto
      have p: "p1 = js_div (Num 1) va" "p2 = js_div (Num 1) vb"
        using a b v by (simp_all add: p1_def p2_def)
      have sp': "spec_impliedProbs (map odds1 odds) (map odds2 odds) (map draw_odds odds)
          = Some [p1, p2]"
        using v by (simp add: sp p)
      have tt: "spec_total [p1, p2] = t" by (simp add: t_def)
      have bo: "best_odds b1 = va" "best_odds b2 = vb" using a b v by simp_all
      have lt: "js_gt (Num 1) t \<longleftrightarrow> \<not> js_ge t (Num 1)"
        using g by (intro ge0_below_one_iff) (simp add: t_def ge0_add)
      show ?thesis
        unfolding ca c2 sp'
        by (simp add: tt lt p1_def [symmetric] p2_def [symmetric]
            del: toFixed2.simps js_div.simps js_mul.simps js_add.simps
            js_ge.simps js_gt.simps spec_total.simps)
    qed
  next
    case True
    then obtain vd where vd: "D = Some vd" by (auto simp: hasDrawOdds_spec D_def)
    have ca: "calculateArbitrage odds = calculate3WayArbitrage odds"
      using len True by (simp add: calculateArbitrage_def)
    define t where "t = js_add (js_add p1 p2) p3"
    note c3 = calc3_eq [OF odds b1_def b2_def b3_def p1_def p2_def p3_def t_def]
    have sp: "spec_impliedProbs (map odds1 odds) (map odds2 odds) (map draw_odds odds)
        = those [map_option (js_div (Num 1)) A, map_option (js_div (Num 1)) D,
                 map_option (js_div (Num 1)) B]"
      using vd by (simp add: spec_impliedProbs_def spec_outcomes_def spec_impliedProb_def
          A_def B_def D_def del: those.simps)
    have d0: "best_odds b3 \<noteq> Num 0" using d vd spec_bestPrice_ne0 [of _ vd] by (simp add: D_def)
    show ?thesis
    proof (cases "A = None \<or> B = None")
      case True
      then have "best_odds b1 = Num 0 \<or> best_odds b2 = Num 0" using a b by auto
      moreover have "spec_impliedProbs (map odds1 odds) (map odds2 odds) (map draw_odds odds) = None"
        using True by (auto simp: sp split: option.splits)
      ultimately show ?thesis by (auto simp add: ca c3)
    next
      case False
      then obtain va vb where v: "A = Some va" "B = Some vb" by auto
      have p: "p1 = js_div (Num 1) va" "p2 = js_div (Num 1) vb" "p3 = js_div (Num 1) vd"
        using a b d v vd by (simp_all add: p1_def p2_def p3_def)
      have sp': "spec_impliedProbs (map odds1 odds) (map odds2 odds) (map draw_odds odds)
          = Some [p1, p3, p2]"
        using v vd by (simp add: sp p)
      have tt: "spec_total [p1, p3, p2] = t" by (simp add: t_def)
      have bo: "best_odds b1 = va" "best_odds b2 = vb" "best_odds b3 = vd"
        using a b d v vd by simp_all
      have n0: "va \<noteq> Num 0" "vb \<noteq> Num 0" "vd \<noteq> Num 0"
        using v vd spec_bestPrice_ne0 by (auto simp: A_def B_def D_def)
      have lt: "js_gt (Num 1) t \<longleftrightarrow> \<not> js_ge t (Num 1)"
        using g by (intro ge0_below_one_iff) (simp add: t_def ge0_add)
      show ?thesis
        unfolding ca c3 sp'
        by (simp add: tt lt bo n0 p [symmetric]
            del: toFixed2.simps js_div.simps js_mul.simps js_add.simps
            js_ge.simps js_gt.simps spec_total.simps)
    qed
  qed
qed

text \<open>
  The theorem at the two-outcome example, prices 2.10 and 2.20 from two bookmakers, and
  at the three-outcome example.
\<close>

theorem C1_calculateArbitrage_detects_witness:
  "(\<exists>ps. spec_impliedProbs (map odds1 quotesArb) (map odds2 quotesArb) (map draw_odds quotesArb)
          = Some ps
     \<and> js_gt (Num 1) (spec_total ps)
     \<and> map (\<lambda>leg. js_div (Num 1) (bet_odds leg)) (bets oppArb) = ps
     \<and> profit_percentage oppArb
         = toFixed2 (js_mul (js_sub (js_div (Num 1) (spec_total ps)) (Num 1)) (Num 100))
     \<and> map stake_pct (bets oppArb)
         = map (\<lambda>p. toFixed2 (js_mul (js_div p (spec_total ps)) (Num 100))) ps)
   \<and> (\<exists>ps. spec_impliedProbs (map odds1 quotes3Way) (map odds2 quotes3Way)
            (map draw_odds quotes3Way) = Some ps
     \<and> js_gt (Num 1) (spec_total ps)
     \<and> map (\<lambda>leg. js_div (Num 1) (bet_odds leg)) (bets opp3Way) = ps
     \<and> profit_percentage opp3Way
         = toFixed2 (js_mul (js_sub (js_div (Num 1) (spec_total ps)) (Num 1)) (Num 100))
     \<and> map stake_pct (bets opp3Way)
         = map (\<lambda>p. toFixed2 (js_mul (js_div p (spec_total ps)) (Num 100))) ps)"
proof -
  have 1: "2 \<le> length quotesArb" by (simp add: quotesArb_def)
  have 2: "2 \<le> length quotes3Way" by (simp add: quotes3Way_def)
  show ?thesis
    using C1_calculateArbitrage_detects [OF 1] C1_calculateArbitrage_detects [OF 2]
    by (simp add: quotesArb_result quotes3Way_result
        del: toFixed2.simps js_div.simps js_mul.simps js_add.simps js_gt.simps spec_total.simps)
qed

text \<open>
  The claim as written fails at the best prices 2, 3 and 6.  The sum of \<open>1 / bestPrice\<close>
  over the outcomes is exactly 1, which is not below 1, and the calculator returns an
  opportunity: in double arithmetic the sum is \<open>1 - 2^(-53)\<close>.  The result carries the
  rounded values: a profit of 0, and the stakes 50, 16.67 and 33.33 for the exact stakes
  50, 100/6 and 100/3.
\<close>

theorem C1_exact_sum_counterexample:
  "calculateArbitrage quotesEven = Inr (Some oppEven)
   \<and> map bet_odds (bets oppEven) = [Num 2, Num 6, Num 3]
   \<and> spec_exactTotal oppEven = 1 / 2 + 1 / 6 + 1 / 3
   \<and> \<not> spec_exactTotal oppEven < 1
   \<and> totalImpliedProb quotesEven = Num (1 - pow2 (- 53))
   \<and> map stake_pct (bets oppEven) = [Num 50, to_double (1667 / 100), to_double (3333 / 100)]
   \<and> to_double (1667 / 100) \<noteq> Num (1 / 6 / (1 / 2 + 1 / 6 + 1 / 3) * 100)"
proof (intro conjI)
  show "calculateArbitrage quotesEven = Inr (Some oppEven)" by (rule quotesEven_result)
  show "totalImpliedProb quotesEven = Num (1 - pow2 (- 53))" by (rule quotesEven_total)
  show "to_double (1667 / 100) \<noteq> Num (1 / 6 / (1 / 2 + 1 / 6 + 1 / 3) * 100)"
    by (simp add: double_eval)
qed (simp_all add: oppEven_def spec_exactTotal_def spec_exactProb_def)

text \<open>
  Claim C3, amended.  Take quotes whose prices are JavaScript numbers.  Every
  opportunity that \<open>calculateArbitrage\<close> returns for them, with a leg whose price is not
  \<open>Infinity\<close>, has two or three legs.  The stakes that the calculator computes before
  rounding are finite and not negative; each leg's \<open>stake_pct\<close> is the double nearest to
  the two-decimal rounding of its stake, which drifts from the stake by at most 0.005;
  the two-decimal values sum to 100 within 0.01, and the returned numbers, the doubles
  nearest to them, sum to 100 within \<open>0.01 + 2^(-40)\<close>.
\<close>

theorem C3_stakes_sum_to_100:
  assumes res: "calculateArbitrage odds = Inr (Some opp)"
    and dbl: "jsNumbers odds" and fin: "finiteLeg opp"
  shows "\<exists>us vs. (length us = 2 \<or> length us = 3)
           \<and> stakePcts odds = map Num us
           \<and> list_all (\<lambda>u. 0 \<le> u) us
           \<and> map stake_pct (bets opp) = map (\<lambda>u. to_double (round2 u)) us
           \<and> list_all (\<lambda>u. \<bar>round2 u - u\<bar> \<le> 1 / 200) us
           \<and> \<bar>sum_list (map round2 us) - 100\<bar> \<le> 1 / 100
           \<and> map stake_pct (bets opp) = map Num vs
           \<and> \<bar>sum_list vs - 100\<bar> \<le> 1 / 100 + pow2 (- 40)"
  using calculateArbitrage_branch[OF res]
proof (elim disjE conjE)
  assume h: "\<not> hasDrawOdds odds" and c: "calculate2WayArbitrage odds = Inr (Some opp)"
  from c show ?thesis
  proof (rule calc2_Some)
    fix b1 b2 r q qs
    assume b: "bestOdds2Way odds = (b1, b2)"
      and t: "js_add (js_div (Num 1) (best_odds b1)) (js_div (Num 1) (best_odds b2)) = Num r"
      and r: "r < 1"
      and opp: "opp = \<lparr>exists_flag = True,
       profit_percentage = toFixed2 (js_mul (js_sub (js_div (Num 1) (Num r)) (Num 1)) (Num 100)),
       bets = [\<lparr>outcome = team1 q, bet_bookmaker = best_bookmaker b1, bet_odds = best_odds b1,
                 stake_pct = toFixed2 (js_mul (js_div (js_div (Num 1) (best_odds b1)) (Num r)) (Num 100))\<rparr>,
               \<lparr>outcome = team2 q, bet_bookmaker = best_bookmaker b2, bet_odds = best_odds b2,
                 stake_pct = toFixed2 (js_mul (js_div (js_div (Num 1) (best_odds b2)) (Num r)) (Num 100))\<rparr>]\<rparr>"
    have bb: "b1 = foldl (better odds1) noBest odds" "b2 = foldl (better odds2) noBest odds"
      using b by (simp_all add: bestOdds2Way_eq)
    have g: "ge0 (js_div (Num 1) (best_odds b1))" "ge0 (js_div (Num 1) (best_odds b2))"
      using bests2_ok[OF b] by (simp_all add: ge0_inverse okBest_ge0)
    from ge0_add_Num[OF g t r] obtain x1 x2
      where x: "js_div (Num 1) (best_odds b1) = Num x1" "js_div (Num 1) (best_odds b2) = Num x2"
        "to_double (x1 + x2) = Num r" by blast
    have l1: "if best_odds b1 = PosInf then x1 = 0 else pow2 (- 1024) \<le> x1"
      using picked_side prices_double(1)[OF dbl] x(1) unfolding bb by (rule leg_price)
    have l2: "if best_odds b2 = PosInf then x2 = 0 else pow2 (- 1024) \<le> x2"
      using picked_side prices_double(2)[OF dbl] x(2) unfolding bb by (rule leg_price)
    have "best_odds b1 \<noteq> PosInf \<or> best_odds b2 \<noteq> PosInf"
      using fin by (auto simp: finiteLeg_def opp)
    then have "0 < x1 \<or> 0 < x2" using leg_pos[OF l1] leg_pos[OF l2] by blast
    moreover have "0 \<le> x1" "0 \<le> x2"
      using leg_cases[OF l1] leg_cases[OF l2] by (simp_all add: pow2_or_0_nonneg)
    ultimately have pos: "0 < x1 + x2" by linarith
    from stakes2[OF leg_cases[OF l1] leg_cases[OF l2] pos x(3)] obtain u1 u2
      where u: "js_mul (js_div (Num x1) (Num r)) (Num 100) = Num u1"
        "js_mul (js_div (Num x2) (Num r)) (Num 100) = Num u2"
        "0 \<le> u1" "u1 \<le> 256" "0 \<le> u2" "u2 \<le> 256" "\<bar>u1 + u2 - 100\<bar> \<le> 1 / 1000" by blast
    from toFixed2_stake[OF u(3,4)] obtain v1
      where v1: "toFixed2 (Num u1) = Num v1" "to_double (round2 u1) = Num v1"
        "\<bar>v1 - round2 u1\<bar> \<le> pow2 (- 43)" by blast
    from toFixed2_stake[OF u(5,6)] obtain v2
      where v2: "toFixed2 (Num u2) = Num v2" "to_double (round2 u2) = Num v2"
        "\<bar>v2 - round2 u2\<bar> \<le> pow2 (- 43)" by blast
    have s: "\<bar>round2 u1 + round2 u2 - 100\<bar> \<le> 1 / 100" using u(3,5,7) by (rule sum2_round)
    have 1: "stakePcts odds = map Num [u1, u2]"
      using h b t x u(1,2)
      by (simp add: stakePcts_def stakePcts2Way_def
          del: js_div.simps js_mul.simps js_add.simps)
    have 2: "map stake_pct (bets opp) = map (\<lambda>u. to_double (round2 u)) [u1, u2]"
      unfolding opp x u by (simp add: v1 v2 del: toFixed2.simps)
    have 3: "list_all (\<lambda>u. \<bar>round2 u - u\<bar> \<le> 1 / 200) [u1, u2]"
      using round2_err[OF u(3)] round2_err[OF u(5)] by simp
    have 4: "\<bar>sum_list (map round2 [u1, u2]) - 100\<bar> \<le> 1 / 100" using s by simp
    have 5: "map stake_pct (bets opp) = map Num [v1, v2]"
      unfolding opp x u by (simp add: v1 v2 del: toFixed2.simps)
    have 6: "\<bar>sum_list [v1, v2] - 100\<bar> \<le> 1 / 100 + pow2 (- 40)"
      using returned_sum2[OF s v1(3) v2(3)] by simp
    have 7: "list_all (\<lambda>u. 0 \<le> u) [u1, u2]" using u(3,5) by simp
    have 8: "length [u1, u2] = 2 \<or> length [u1, u2] = 3" by simp
    from 8 1 7 2 3 4 5 6 show ?thesis by blast
  qed
next
  assume h: "hasDrawOdds odds" and c: "calculate3WayArbitrage odds = Inr (Some opp)"
  from c show ?thesis
  proof (rule calc3_Some)
    fix b1 b2 b3 r q qs
    assume b: "bestOdds3Way odds = (b1, b2, b3)"
      and t: "js_add (js_add (js_div (Num 1) (best_odds b1)) (js_div (Num 1) (best_odds b2)))
       (js_div (Num 1) (best_odds b3)) = Num r"
      and r: "r < 1"
      and opp: "opp = \<lparr>exists_flag = True,
       profit_percentage = toFixed2 (js_mul (js_sub (js_div (Num 1) (Num r)) (Num 1)) (Num 100)),
       bets = [\<lparr>outcome = team1 q, bet_bookmaker = best_bookmaker b1, bet_odds = best_odds b1,
                 stake_pct = toFixed2 (js_mul (js_div (js_div (Num 1) (best_odds b1)) (Num r)) (Num 100))\<rparr>,
               \<lparr>outcome = ''Draw'', bet_bookmaker = best_bookmaker b3, bet_odds = best_odds b3,
                 stake_pct = toFixed2 (js_mul (js_div (js_div (Num 1) (best_odds b3)) (Num r)) (Num 100))\<rparr>,
               \<lparr>outcome = team2 q, bet_bookmaker = best_bookmaker b2, bet_odds = best_odds b2,
                 stake_pct = toFixed2 (js_mul (js_div (js_div (Num 1) (best_odds b2)) (Num r)) (Num 100))\<rparr>]\<rparr>"
    have bb: "b1 = foldl (better odds1) noBest odds" "b2 = foldl (better odds2) noBest odds"
      "b3 = foldl betterDraw noBest odds"
      using b by (simp_all add: bestOdds3Way_eq)
    have g: "ge0 (js_div (Num 1) (best_odds b1))" "ge0 (js_div (Num 1) (best_odds b2))"
      "ge0 (js_div (Num 1) (best_odds b3))"
      using bests3_ok[OF b] by (simp_all add: ge0_inverse okBest_ge0)
    have g12: "ge0 (js_add (js_div (Num 1) (best_odds b1)) (js_div (Num 1) (best_odds b2)))"
      using g(1,2) by (rule ge0_add)
    from ge0_add_Num[OF g12 g(3) t r] obtain s x3
      where s: "js_add (js_div (Num 1) (best_odds b1)) (js_div (Num 1) (best_odds b2)) = Num s"
        "js_div (Num 1) (best_odds b3) = Num x3" "s < 1" "to_double (s + x3) = Num r" by blast
    from ge0_add_Num[OF g(1,2) s(1,3)] obtain x1 x2
      where x: "js_div (Num 1) (best_odds b1) = Num x1" "js_div (Num 1) (best_odds b2) = Num x2"
        "to_double (x1 + x2) = Num s" by blast
    have l1: "if best_odds b1 = PosInf then x1 = 0 else pow2 (- 1024) \<le> x1"
      using picked_side prices_double(1)[OF dbl] x(1) unfolding bb by (rule leg_price)
    have l2: "if best_odds b2 = PosInf then x2 = 0 else pow2 (- 1024) \<le> x2"
      using picked_side prices_double(2)[OF dbl] x(2) unfolding bb by (rule leg_price)
    have l3: "if best_odds b3 = PosInf then x3 = 0 else pow2 (- 1024) \<le> x3"
      using picked_draw prices_double(3)[OF dbl] s(2) unfolding bb by (rule leg_price)
    have "best_odds b1 \<noteq> PosInf \<or> best_odds b2 \<noteq> PosInf \<or> best_odds b3 \<noteq> PosInf"
      using fin by (auto simp: finiteLeg_def opp)
    then have "0 < x1 \<or> 0 < x2 \<or> 0 < x3"
      using leg_pos[OF l1] leg_pos[OF l2] leg_pos[OF l3] by blast
    moreover have "0 \<le> x1" "0 \<le> x2" "0 \<le> x3"
      using leg_cases[OF l1] leg_cases[OF l2] leg_cases[OF l3]
      by (simp_all add: pow2_or_0_nonneg)
    ultimately have pos: "0 < x1 + x2 + x3" by linarith
    from stakes3[OF leg_cases[OF l1] leg_cases[OF l2] leg_cases[OF l3] pos x(3) s(4)]
    obtain u1 u2 u3
      where u: "js_mul (js_div (Num x1) (Num r)) (Num 100) = Num u1"
        "js_mul (js_div (Num x2) (Num r)) (Num 100) = Num u2"
        "js_mul (js_div (Num x3) (Num r)) (Num 100) = Num u3"
        "0 \<le> u1" "u1 \<le> 256" "0 \<le> u2" "u2 \<le> 256" "0 \<le> u3" "u3 \<le> 256"
        "\<bar>u1 + u3 + u2 - 100\<bar> \<le> 1 / 1000" by blast
    from toFixed2_stake[OF u(4,5)] obtain v1
      where v1: "toFixed2 (Num u1) = Num v1" "to_double (round2 u1) = Num v1"
        "\<bar>v1 - round2 u1\<bar> \<le> pow2 (- 43)" by blast
    from toFixed2_stake[OF u(6,7)] obtain v2
      where v2: "toFixed2 (Num u2) = Num v2" "to_double (round2 u2) = Num v2"
        "\<bar>v2 - round2 u2\<bar> \<le> pow2 (- 43)" by blast
    from toFixed2_stake[OF u(8,9)] obtain v3
      where v3: "toFixed2 (Num u3) = Num v3" "to_double (round2 u3) = Num v3"
        "\<bar>v3 - round2 u3\<bar> \<le> pow2 (- 43)" by blast
    have sr: "\<bar>round2 u1 + round2 u3 + round2 u2 - 100\<bar> \<le> 1 / 100"
      using u(4,8,6,10) by (rule sum3_round)
    have 1: "stakePcts odds = map Num [u1, u3, u2]"
      using h b t s(2) x(1,2) u(1,2,3)
      by (simp add: stakePcts_def stakePcts3Way_def
          del: js_div.simps js_mul.simps js_add.simps)
    have 2: "map stake_pct (bets opp) = map (\<lambda>u. to_double (round2 u)) [u1, u3, u2]"
      unfolding opp x s(2) u by (simp add: v1 v2 v3 del: toFixed2.simps)
    have 3: "list_all (\<lambda>u. \<bar>round2 u - u\<bar> \<le> 1 / 200) [u1, u3, u2]"
      using round2_err[OF u(4)] round2_err[OF u(6)] round2_err[OF u(8)] by simp
    have 4: "\<bar>sum_list (map round2 [u1, u3, u2]) - 100\<bar> \<le> 1 / 100"
      using sr by (simp add: add.assoc)
    have 5: "map stake_pct (bets opp) = map Num [v1, v3, v2]"
      unfolding opp x s(2) u by (simp add: v1 v2 v3 del: toFixed2.simps)
    have 6: "\<bar>sum_list [v1, v3, v2] - 100\<bar> \<le> 1 / 100 + pow2 (- 40)"
      using returned_sum3[OF sr v1(3) v3(3) v2(3)] by (simp add: add.assoc)
    have 7: "list_all (\<lambda>u. 0 \<le> u) [u1, u3, u2]" using u(4,6,8) by simp
    have 8: "length [u1, u3, u2] = 2 \<or> length [u1, u3, u2] = 3" by simp
    from 8 1 7 2 3 4 5 6 show ?thesis by blast
  qed
qed


text \<open>
  The theorem at the three-outcome example, and at the best prices 1.375 and 18.625,
  where the stakes before rounding are just below 93.125 and 6.875 and the returned
  stakes are 93.12 and 6.87.
\<close>

theorem C3_stakes_sum_to_100_witness:
  "calculateArbitrage quotes3Way = Inr (Some opp3Way) \<and> jsNumbers quotes3Way \<and> finiteLeg opp3Way
   \<and> (\<exists>us vs. (length us = 2 \<or> length us = 3)
     \<and> stakePcts quotes3Way = map Num us
     \<and> list_all (\<lambda>u. 0 \<le> u) us
     \<and> map stake_pct (bets opp3Way) = map (\<lambda>u. to_double (round2 u)) us
     \<and> list_all (\<lambda>u. \<bar>round2 u - u\<bar> \<le> 1 / 200) us
     \<and> \<bar>sum_list (map round2 us) - 100\<bar> \<le> 1 / 100
     \<and> map stake_pct (bets opp3Way) = map Num vs
     \<and> \<bar>sum_list vs - 100\<bar> \<le> 1 / 100 + pow2 (- 40))
   \<and> calculateArbitrage quotesTie = Inr (Some oppTie) \<and> jsNumbers quotesTie \<and> finiteLeg oppTie
   \<and> (\<exists>us vs. (length us = 2 \<or> length us = 3)
     \<and> stakePcts quotesTie = map Num us
     \<and> list_all (\<lambda>u. 0 \<le> u) us
     \<and> map stake_pct (bets oppTie) = map (\<lambda>u. to_double (round2 u)) us
     \<and> list_all (\<lambda>u. \<bar>round2 u - u\<bar> \<le> 1 / 200) us
     \<and> \<bar>sum_list (map round2 us) - 100\<bar> \<le> 1 / 100
     \<and> map stake_pct (bets oppTie) = map Num vs
     \<and> \<bar>sum_list vs - 100\<bar> \<le> 1 / 100 + pow2 (- 40))
   \<and> stakePcts quotesTie
       = [Num (6553089301544959 / 70368744177664), Num (7740561859543039 / 1125899906842624)]
   \<and> map stake_pct (bets oppTie) = [to_double (9312 / 100), to_double (687 / 100)]"
proof -
  have 1: "jsNumbers quotes3Way"
    by (simp add: jsNumbers_def jsNumber_def isDouble_def quotes3Way_def mkQuote_def double_eval)
  have 2: "finiteLeg opp3Way"
    by (simp add: finiteLeg_def opp3Way_def double_eval)
  have 3: "jsNumbers quotesTie"
    by (simp add: jsNumbers_def jsNumber_def isDouble_def quotesTie_def mkQuote_def double_eval)
  have 4: "finiteLeg oppTie"
    by (simp add: finiteLeg_def oppTie_def)
  have 5: "map stake_pct (bets oppTie) = [to_double (9312 / 100), to_double (687 / 100)]"
    by (simp add: oppTie_def)
  from C3_stakes_sum_to_100 [OF quotes3Way_result 1 2]
    C3_stakes_sum_to_100 [OF quotesTie_result 3 4] quotes3Way_result quotesTie_result 1 2 3 4 5
    quotesTie_stakes
  show ?thesis by (intro conjI)
qed

text \<open>
  The claim as written fails where each side is quoted at \<open>Infinity\<close> by some bookmaker:
  both implied probabilities are 0, the total 0 is below 1, and the calculator returns an
  opportunity whose stakes are \<open>0 / 0 * 100\<close>, that is \<open>NaN\<close>; their sum is \<open>NaN\<close>.
\<close>

theorem C3_infinite_prices_counterexample:
  "calculateArbitrage quotesInf = Inr (Some oppInf)
   \<and> map bet_odds (bets oppInf) = [PosInf, PosInf]
   \<and> map stake_pct (bets oppInf) = [NaN, NaN]
   \<and> spec_stakesTotal oppInf = NaN
   \<and> \<not> spec_conserved oppInf"
proof (intro conjI)
  show "calculateArbitrage quotesInf = Inr (Some oppInf)" by (rule quotesInf_result)
qed (simp_all add: oppInf_def spec_conserved_def spec_stakesTotal_def)
text \<open>
  Claim C4, amended.  When \<open>calculateArbitrage\<close> returns an opportunity, the total
  implied probability that it computed, in double arithmetic, is not at least 1; the
  profit that it computed from that total, before rounding to two decimal places, is
  strictly greater than 0; and the opportunity's \<open>profit_percentage\<close>, that profit
  passed through \<open>toFixed(2)\<close>, is greater than or equal to 0.  It can be 0.  In exact
  arithmetic the total implied probability of the legs, the sum of \<open>1 / price\<close>, is below
  \<open>1 + 2^(-50)\<close>; it can be 1, where the exact profit is 0.
\<close>

theorem C4_profit_nonnegative:
  assumes "calculateArbitrage odds = Inr (Some opp)"
  shows "\<not> js_ge (totalImpliedProb odds) (Num 1)
    \<and> js_gt (profitPercentage odds) (Num 0)
    \<and> profit_percentage opp = toFixed2 (profitPercentage odds)
    \<and> js_ge (profit_percentage opp) (Num 0)
    \<and> spec_exactTotal opp < 1 + pow2 (- 50)"
proof -
  from calculateArbitrage_branch[OF assms]
  obtain r where r: "0 \<le> r" "r < 1" "r \<le> 1 - pow2 (- 53)" "totalImpliedProb odds = Num r"
    "profit_percentage opp = toFixed2 (js_mul (js_sub (js_div (Num 1) (Num r)) (Num 1)) (Num 100))"
  proof (elim disjE conjE)
    assume h: "\<not> hasDrawOdds odds" and "calculate2WayArbitrage odds = Inr (Some opp)"
    from this(2) show ?thesis
    proof (rule calc2_Some)
      fix b1 b2 r q qs
      assume b: "bestOdds2Way odds = (b1, b2)"
        and t: "js_add (js_div (Num 1) (best_odds b1)) (js_div (Num 1) (best_odds b2)) = Num r"
        and r: "0 \<le> r" "r < 1"
        and opp: "opp = \<lparr>exists_flag = True,
         profit_percentage = toFixed2 (js_mul (js_sub (js_div (Num 1) (Num r)) (Num 1)) (Num 100)),
         bets = [\<lparr>outcome = team1 q, bet_bookmaker = best_bookmaker b1, bet_odds = best_odds b1,
                   stake_pct = toFixed2 (js_mul (js_div (js_div (Num 1) (best_odds b1)) (Num r)) (Num 100))\<rparr>,
                 \<lparr>outcome = team2 q, bet_bookmaker = best_bookmaker b2, bet_odds = best_odds b2,
                   stake_pct = toFixed2 (js_mul (js_div (js_div (Num 1) (best_odds b2)) (Num r)) (Num 100))\<rparr>]\<rparr>"
      have g: "ge0 (js_div (Num 1) (best_odds b1))" "ge0 (js_div (Num 1) (best_odds b2))"
        using bests2_ok[OF b] by (simp_all add: ge0_inverse okBest_ge0)
      have gap: "r \<le> 1 - pow2 (- 53)" using g t r(2) by (rule total_gap)
      have tot: "totalImpliedProb odds = Num r"
        using h b t by (simp add: totalImpliedProb_def totalImpliedProb2Way_def)
      show ?thesis using r gap tot opp by (intro that) simp_all
    qed
  next
    assume h: "hasDrawOdds odds" and "calculate3WayArbitrage odds = Inr (Some opp)"
    from this(2) show ?thesis
    proof (rule calc3_Some)
      fix b1 b2 b3 r q qs
      assume b: "bestOdds3Way odds = (b1, b2, b3)"
        and t: "js_add (js_add (js_div (Num 1) (best_odds b1)) (js_div (Num 1) (best_odds b2)))
         (js_div (Num 1) (best_odds b3)) = Num r"
        and r: "0 \<le> r" "r < 1"
        and opp: "opp = \<lparr>exists_flag = True,
         profit_percentage = toFixed2 (js_mul (js_sub (js_div (Num 1) (Num r)) (Num 1)) (Num 100)),
         bets = [\<lparr>outcome = team1 q, bet_bookmaker = best_bookmaker b1, bet_odds = best_odds b1,
                   stake_pct = toFixed2 (js_mul (js_div (js_div (Num 1) (best_odds b1)) (Num r)) (Num 100))\<rparr>,
                 \<lparr>outcome = ''Draw'', bet_bookmaker = best_bookmaker b3, bet_odds = best_odds b3,
                   stake_pct = toFixed2 (js_mul (js_div (js_div (Num 1) (best_odds b3)) (Num r)) (Num 100))\<rparr>,
                 \<lparr>outcome = team2 q, bet_bookmaker = best_bookmaker b2, bet_odds = best_odds b2,
                   stake_pct = toFixed2 (js_mul (js_div (js_div (Num 1) (best_odds b2)) (Num r)) (Num 100))\<rparr>]\<rparr>"
      have g: "ge0 (js_add (js_div (Num 1) (best_odds b1)) (js_div (Num 1) (best_odds b2)))"
        "ge0 (js_div (Num 1) (best_odds b3))"
        using bests3_ok[OF b] by (simp_all add: ge0_add ge0_inverse okBest_ge0)
      have gap: "r \<le> 1 - pow2 (- 53)" using g t r(2) by (rule total_gap)
      have tot: "totalImpliedProb odds = Num r"
        using h b t by (simp add: totalImpliedProb_def totalImpliedProb3Way_def)
      show ?thesis using r gap tot opp by (intro that) simp_all
    qed
  qed
  have P: "profitPercentage odds = js_mul (js_sub (js_div (Num 1) (Num r)) (Num 1)) (Num 100)"
    by (simp only: profitPercentage_def r(4))
  have 1: "js_gt (profitPercentage odds) (Num 0)" unfolding P using r(1,3) by (rule profit_pos)
  have 2: "js_ge (toFixed2 (profitPercentage odds)) (Num 0)" using 1 by (rule toFixed2_nonneg)
  have 3: "\<not> js_ge (totalImpliedProb odds) (Num 1)" using r(2,4) by simp
  have 4: "spec_exactTotal opp < 1 + pow2 (- 50)" using assms by (rule exact_total_bound)
  show ?thesis using 1 2 3 4 r(5) by (simp only: P) simp
qed

text \<open>The theorem at the best prices 1.01 and 101.01, and at the three-outcome example.\<close>

theorem C4_profit_nonnegative_witness:
  "(\<not> js_ge (totalImpliedProb quotesThin) (Num 1)
    \<and> js_gt (profitPercentage quotesThin) (Num 0)
    \<and> profit_percentage oppThin = toFixed2 (profitPercentage quotesThin)
    \<and> js_ge (profit_percentage oppThin) (Num 0)
    \<and> spec_exactTotal oppThin < 1 + pow2 (- 50))
   \<and> (\<not> js_ge (totalImpliedProb quotes3Way) (Num 1)
    \<and> js_gt (profitPercentage quotes3Way) (Num 0)
    \<and> profit_percentage opp3Way = toFixed2 (profitPercentage quotes3Way)
    \<and> js_ge (profit_percentage opp3Way) (Num 0)
    \<and> spec_exactTotal opp3Way < 1 + pow2 (- 50))"
  using C4_profit_nonnegative [OF quotesThin_result] C4_profit_nonnegative [OF quotes3Way_result]
  by (rule conjI)

text \<open>
  The claim as written fails at best prices 1.01 and 101.01: an opportunity is returned,
  its profit before rounding is below 0.005 percent, and its \<open>profit_percentage\<close> is 0.
  It fails also at the best prices 2, 3 and 6, where the exact total implied probability
  is 1 and the exact profit 0: an opportunity is returned, with \<open>profit_percentage\<close> 0.
\<close>

theorem C4_zero_profit_counterexample:
  "calculateArbitrage quotesThin = Inr (Some oppThin)
   \<and> profitPercentage quotesThin = Num (55180352225 / 562949953421312)
   \<and> profit_percentage oppThin = Num 0
   \<and> \<not> js_gt (profit_percentage oppThin) (Num 0)
   \<and> calculateArbitrage quotesEven = Inr (Some oppEven)
   \<and> spec_exactTotal oppEven = 1
   \<and> \<not> js_gt (profit_percentage oppEven) (Num 0)"
proof (intro conjI)
  show "calculateArbitrage quotesEven = Inr (Some oppEven)" by (rule quotesEven_result)
  show "spec_exactTotal oppEven = 1" by (simp add: spec_exactTotal_def spec_exactProb_def oppEven_def)
  show "\<not> js_gt (profit_percentage oppEven) (Num 0)" by (simp add: oppEven_def)
  show "calculateArbitrage quotesThin = Inr (Some oppThin)" by (rule quotesThin_result)
  show "profitPercentage quotesThin = Num (55180352225 / 562949953421312)"
    by (rule quotesThin_profit)
  show "profit_percentage oppThin = Num 0" by (simp add: oppThin_def)
  show "\<not> js_gt (profit_percentage oppThin) (Num 0)" by (simp add: oppThin_def)
qed

text \<open>
  Claim C5, amended.  The calculator treats as absent exactly the prices that are not
  greater than 0 (a price at most 0, \<open>NaN\<close>, \<open>-Infinity\<close>, a \<open>null\<close> draw price): the best
  of each outcome, in the two-outcome and in the three-outcome loop, is the initial one
  or the price, greater than 0, and the bookmaker of one of the quotes.  A price in
  (0, 1] can be selected, but every leg of a returned opportunity has a price greater
  than 1.
\<close>

theorem C5_best_price_selection:
  "(case bestOdds2Way odds of (b1, b2) \<Rightarrow>
      pickedFrom (Some \<circ> odds1) odds b1 \<and> pickedFrom (Some \<circ> odds2) odds b2)
   \<and> (case bestOdds3Way odds of (b1, b2, b3) \<Rightarrow>
      pickedFrom (Some \<circ> odds1) odds b1 \<and> pickedFrom (Some \<circ> odds2) odds b2
      \<and> pickedFrom draw_odds odds b3)
   \<and> (\<forall>opp. calculateArbitrage odds = Inr (Some opp) \<longrightarrow>
         list_all (\<lambda>leg. js_gt (bet_odds leg) (Num 1)) (bets opp))"
proof (intro conjI allI impI)
  show "case bestOdds2Way odds of (b1, b2) \<Rightarrow>
      pickedFrom (Some \<circ> odds1) odds b1 \<and> pickedFrom (Some \<circ> odds2) odds b2"
    by (simp add: bestOdds2Way_eq picked_side)
  show "case bestOdds3Way odds of (b1, b2, b3) \<Rightarrow>
      pickedFrom (Some \<circ> odds1) odds b1 \<and> pickedFrom (Some \<circ> odds2) odds b2
      \<and> pickedFrom draw_odds odds b3"
    by (simp add: bestOdds3Way_eq picked_side picked_draw)
next
  fix opp
  assume "calculateArbitrage odds = Inr (Some opp)"
  then show "list_all (\<lambda>leg. js_gt (bet_odds leg) (Num 1)) (bets opp)"
    by (rule legs_above_one)
qed

theorem C5_best_price_selection_witness:
  "pickedFrom (Some \<circ> odds1) quotesArb (fst (bestOdds2Way quotesArb))
   \<and> pickedFrom (Some \<circ> odds2) quotesArb (snd (bestOdds2Way quotesArb))
   \<and> list_all (\<lambda>leg. js_gt (bet_odds leg) (Num 1)) (bets oppArb)"
  using C5_best_price_selection[of quotesArb]
  by (simp add: quotesArb_result split: prod.splits)

text \<open>
  The claim as written fails where side A is quoted at 0.50 and 0.40: the price 0.50, which
  the specification treats as absent, is selected as the best price of side A and enters
  the sum with the implied probability 2.
\<close>

theorem C5_low_price_selected_counterexample:
  "spec_absentPrice (Num (1 / 2))
   \<and> map odds1 quotesLow = [Num (1 / 2), to_double (2 / 5)]
   \<and> fst (bestOdds2Way quotesLow) = \<lparr>best_odds = Num (1 / 2), best_bookmaker = Some ''Bet365''\<rparr>
   \<and> js_div (Num 1) (best_odds (fst (bestOdds2Way quotesLow))) = Num 2"
proof (intro conjI)
  show "spec_absentPrice (Num (1 / 2))" by (simp add: spec_absentPrice_def)
  show "map odds1 quotesLow = [Num (1 / 2), to_double (2 / 5)]"
    by (simp add: quotesLow_def mkQuote_def)
  show "fst (bestOdds2Way quotesLow) = \<lparr>best_odds = Num (1 / 2), best_bookmaker = Some ''Bet365''\<rparr>"
    by (simp add: quotesLow_best)
  show "js_div (Num 1) (best_odds (fst (bestOdds2Way quotesLow))) = Num 2"
    by (simp add: quotesLow_best double_eval)
qed

text \<open>
  Claim C6, amended.  For two or more quotes, \<open>calculateArbitrage\<close> evaluates the event
  as three-outcome if and only if some quote carries a draw price greater than 0, and as
  two-outcome otherwise; the three-outcome evaluation returns \<open>null\<close> when one of the
  three outcomes has no price greater than 0.
\<close>

theorem C6_outcome_count:
  assumes "2 \<le> length odds"
  shows "calculateArbitrage odds =
           (if carriesPrice draw_odds odds then calculate3WayArbitrage odds
            else calculate2WayArbitrage odds)
         \<and> (\<not> (carriesPrice (Some \<circ> odds1) odds \<and> carriesPrice (Some \<circ> odds2) odds
                 \<and> carriesPrice draw_odds odds)
            \<longrightarrow> calculate3WayArbitrage odds = Inr None)"
proof (intro conjI impI)
  show "calculateArbitrage odds =
           (if carriesPrice draw_odds odds then calculate3WayArbitrage odds
            else calculate2WayArbitrage odds)"
    using assms by (simp add: calculateArbitrage_def hasDrawOdds_carries)
next
  assume "\<not> (carriesPrice (Some \<circ> odds1) odds \<and> carriesPrice (Some \<circ> odds2) odds
                 \<and> carriesPrice draw_odds odds)"
  then have "foldl (better odds1) noBest odds = noBest \<or> foldl (better odds2) noBest odds = noBest
     \<or> foldl betterDraw noBest odds = noBest"
    using unpriced_side[of odds1 odds] unpriced_side[of odds2 odds] unpriced_draw[of odds] by blast
  then show "calculate3WayArbitrage odds = Inr None"
    by (intro calc3_unpriced[OF bestOdds3Way_eq]) 
qed

theorem C6_outcome_count_witness:
  "carriesPrice draw_odds quotes3Way
   \<and> calculateArbitrage quotes3Way = calculate3WayArbitrage quotes3Way
   \<and> \<not> carriesPrice draw_odds quotesArb
   \<and> calculateArbitrage quotesArb = calculate2WayArbitrage quotesArb"
proof -
  have 1: "2 \<le> length quotes3Way" by (simp add: quotes3Way_def)
  have 2: "2 \<le> length quotesArb" by (simp add: quotesArb_def)
  have 3: "carriesPrice draw_odds quotes3Way"
    by (simp add: carriesPrice_def quotes3Way_def mkQuote_def double_eval)
  have 4: "\<not> carriesPrice draw_odds quotesArb"
    by (simp add: carriesPrice_def quotesArb_def mkQuote_def)
  show ?thesis using C6_outcome_count[OF 1] C6_outcome_count[OF 2] 3 4 by simp
qed

text \<open>
  The claim as written fails where the only draw price is 0.50: no quote carries a draw
  price greater than 1.0, the two-outcome evaluation finds the opportunity of the
  arbitrage example, and the calculator, evaluating three outcomes, returns \<open>null\<close>.
\<close>

theorem C6_low_draw_counterexample:
  "\<not> spec_threeOutcome quotesLowDraw
   \<and> calculateArbitrage quotesLowDraw = Inr None
   \<and> calculate2WayArbitrage quotesLowDraw = Inr (Some oppArb)"
  by (simp add: quotesLowDraw_result quotesLowDraw_2way)
    (simp add: spec_threeOutcome_def quotesLowDraw_def mkQuote_def)

text \<open>
  Claim C10.  When no quote has a price greater than 0 for one of the two sides,
  \<open>calculate2WayArbitrage\<close> returns \<open>null\<close>, it neither raises nor returns an
  opportunity, and so does \<open>calculateArbitrage\<close> on a two-outcome quote set: the best of
  that side stays the initial one with odds 0, its implied probability \<open>1 / 0\<close> is
  \<open>Infinity\<close>, which is greater than every finite bound, the total implied probability
  is \<open>Infinity\<close>, and \<open>Infinity >= 1\<close> holds.
\<close>

theorem C10_unpriced_side_returns_none:
  assumes "\<not> carriesPrice (Some \<circ> odds1) odds \<or> \<not> carriesPrice (Some \<circ> odds2) odds"
  shows "calculate2WayArbitrage odds = Inr None
    \<and> (\<not> hasDrawOdds odds \<longrightarrow> calculateArbitrage odds = Inr None)
    \<and> (case bestOdds2Way odds of (bestOdds1, bestOdds2) \<Rightarrow>
         (\<not> carriesPrice (Some \<circ> odds1) odds \<longrightarrow>
            bestOdds1 = noBest \<and> js_div (Num 1) (best_odds bestOdds1) = PosInf)
       \<and> (\<not> carriesPrice (Some \<circ> odds2) odds \<longrightarrow>
            bestOdds2 = noBest \<and> js_div (Num 1) (best_odds bestOdds2) = PosInf))
    \<and> totalImpliedProb2Way odds = PosInf
    \<and> js_ge (totalImpliedProb2Way odds) (Num 1)
    \<and> (\<forall>bound. js_gt PosInf (Num bound))"
proof -
  let ?b1 = "foldl (better odds1) noBest odds" and ?b2 = "foldl (better odds2) noBest odds"
  have ok: "ge0 (js_div (Num 1) (best_odds ?b1))" "ge0 (js_div (Num 1) (best_odds ?b2))"
    using bests2_ok[OF bestOdds2Way_eq, of odds] by (simp_all add: ge0_inverse okBest_ge0)
  have 1: "\<not> carriesPrice (Some \<circ> odds1) odds \<Longrightarrow>
      ?b1 = noBest \<and> js_div (Num 1) (best_odds ?b1) = PosInf"
    using unpriced_side[of odds1 odds] by (simp add: noBest_def)
  have 2: "\<not> carriesPrice (Some \<circ> odds2) odds \<Longrightarrow>
      ?b2 = noBest \<and> js_div (Num 1) (best_odds ?b2) = PosInf"
    using unpriced_side[of odds2 odds] by (simp add: noBest_def)
  have t: "js_add (js_div (Num 1) (best_odds ?b1)) (js_div (Num 1) (best_odds ?b2)) = PosInf"
    using assms 1 2 PosInf_add[OF ok(1)] PosInf_add[OF ok(2)] by auto
  have c2: "calculate2WayArbitrage odds = Inr None"
    using t by (simp add: calculate2WayArbitrage_def bestOdds2Way_eq)
  have ca: "\<not> hasDrawOdds odds \<Longrightarrow> calculateArbitrage odds = Inr None"
    using c2 by (simp add: calculateArbitrage_def)
  have tt: "totalImpliedProb2Way odds = PosInf"
    using t by (simp add: totalImpliedProb2Way_def bestOdds2Way_eq)
  show ?thesis using 1 2 tt c2 ca by (simp add: bestOdds2Way_eq noBest_def)
qed

theorem C10_unpriced_side_returns_none_witness:
  "\<not> carriesPrice (Some \<circ> odds1) quotesNoSideA
   \<and> calculate2WayArbitrage quotesNoSideA = Inr None
   \<and> calculateArbitrage quotesNoSideA = Inr None
   \<and> fst (bestOdds2Way quotesNoSideA) = noBest"
proof -
  have 1: "\<not> carriesPrice (Some \<circ> odds1) quotesNoSideA"
    by (simp add: carriesPrice_def quotesNoSideA_def mkQuote_def)
  have 2: "\<not> hasDrawOdds quotesNoSideA"
    by (simp add: hasDrawOdds_def quotesNoSideA_def mkQuote_def)
  show ?thesis
    using C10_unpriced_side_returns_none[of quotesNoSideA] 1 2
    by (auto split: prod.splits)
qed

section \<open>Claims about the on-demand scraper and the match identifiers\<close>

text \<open>
  Claim C2, amended.  Take any number of calls of \<open>getOrScrapeData\<close> on one event loop,
  none made yet and no refresh in flight, and any run of them.  At every state of the
  run at most one call has a refresh in flight, and the flag \<open>isScraping\<close> is set exactly
  when one has.  Every call has invoked nothing; or \<open>scrapeAllSports\<close> alone, when the
  fetch is in flight, failed or found no odds; or \<open>scrapeAllSports\<close> and \<open>storeOdds\<close>,
  when the store is in flight or failed; or all three collaborators in this order, which
  a call that returns \<open>{ scraped: true, oddsCount }\<close> has.  The count of invocations of
  \<open>scrapeAllSports\<close> is the number of fetches in the calls' records.  When the calls are
  concurrent, all made before the refresh in flight ends, and the cached data is stale
  at every call, \<open>scrapeAllSports\<close> is invoked exactly once as soon as one call is made.
\<close>

theorem C2_single_flight:
  assumes "\<not> isScraping g0" and "eventLoop conc (notCalled g0 n) tr = Some s"
  shows "length (calls s) = n
    \<and> length (filter (\<lambda>c. inFlight (fst c)) (calls s)) \<le> 1
    \<and> (isScraping (shared s) \<longleftrightarrow> list_ex (\<lambda>c. inFlight (fst c)) (calls s))
    \<and> list_all (\<lambda>c. logOK (fst c) (snd c)) (calls s)
    \<and> fetches s = sum_list (map (\<lambda>c. count_list (snd c) Fetch) (calls s))
    \<and> (conc \<and> staleCalls g0 tr \<longrightarrow> fetches s = (if allIdle s then 0 else 1))"
proof -
  note i = notCalled_inv[OF assms(1), of n]
  from eventLoop_inv[OF assms(2)] i have m: "mutex s" and l: "logsOK s" and c: "counted s"
    by simp_all
  have len: "length (calls s) = n" using eventLoop_length[OF assms(2)] by (simp add: notCalled_def)
  have ex: "list_ex P xs \<longleftrightarrow> 0 < length (filter P xs)" for P and xs :: "(pc \<times> effect list) list"
    by (induction xs) auto
  have sf: "fetches s = (if allIdle s then 0 else 1)" if "conc" "staleCalls g0 tr"
    using eventLoop_singleFlight[of "notCalled g0 n" tr s g0] assms that i
    by (auto simp: singleFlight_def)
  show ?thesis using m l c len sf by (auto simp: mutex_def logsOK_def counted_def ex)
qed

text \<open>The theorem on three concurrent calls at process start.\<close>

theorem C2_single_flight_witness:
  "length (calls afterThreeCalls) = 3
   \<and> length (filter (\<lambda>c. inFlight (fst c)) (calls afterThreeCalls)) \<le> 1
   \<and> list_all (\<lambda>c. logOK (fst c) (snd c)) (calls afterThreeCalls)
   \<and> fetches afterThreeCalls = 1"
proof -
  have 1: "\<not> isScraping started" by (simp add: started_def)
  have 2: "staleCalls started threeCalls"
    by (simp add: staleCalls_def staleEvent_def threeCalls_def needsFreshData_def started_def)
  have 3: "\<not> allIdle afterThreeCalls" by (simp add: allIdle_def afterThreeCalls_def)
  from C2_single_flight[OF 1 threeCalls_run] 2 3 show ?thesis by simp
qed

text \<open>
  The claim as written has every call perform the fetch, the store and the detection, or
  nothing.  A call whose fetch finds no odds invokes \<open>scrapeAllSports\<close> only.
\<close>

theorem C2_partial_refresh_counterexample:
  "eventLoop True (notCalled started 1) emptyFetch = Some afterEmptyFetch
   \<and> calls afterEmptyFetch = [(Returned NoOdds, [Fetch])]
   \<and> \<not> spec_effects [Fetch]"
proof (intro conjI)
  show "eventLoop True (notCalled started 1) emptyFetch = Some afterEmptyFetch" by (rule emptyFetch_run)
  show "calls afterEmptyFetch = [(Returned NoOdds, [Fetch])]" by (simp add: afterEmptyFetch_def)
  show "\<not> spec_effects [Fetch]" by (simp add: spec_effects_def)
qed

text \<open>
  Claim C7, amended.  A call of \<open>getOrScrapeData\<close> begins a fetch if and only if
  \<open>lastScrapeTime\<close> is unset (\<open>null\<close>, or the timestamp 0, which \<open>!lastScrapeTime\<close>
  takes for unset) or more than 30 minutes old, and no refresh is in flight.  When the
  timestamp is at most 30 minutes old the call returns at once with
  \<open>{ scraped: false, cacheAge }\<close>, the cache status unchanged and no collaborator
  invoked; a returned call is never resumed, and \<open>scrapeAllSports\<close> is only ever
  invoked in the first segment of a call.
\<close>

theorem C7_refresh_starts_iff_stale:
  "((\<exists>g' p'. getOrScrapeData g Idle (Call now now') = Some (g', p', [Fetch]))
      \<longleftrightarrow> (lastScrapeTime g = None \<or> lastScrapeTime g = Some 0
            \<or> (\<exists>t. lastScrapeTime g = Some t \<and> 1800000 < now - t))
          \<and> \<not> isScraping g)
   \<and> (\<forall>t. lastScrapeTime g = Some t \<and> t \<noteq> 0 \<and> now - t \<le> 1800000 \<longrightarrow>
         getOrScrapeData g Idle (Call now now') = Some (g, Returned (Cached (cacheAge g now')), []))
   \<and> (\<forall>p ev g' p' effs. getOrScrapeData g p ev = Some (g', p', effs) \<and> Fetch \<in> set effs \<longrightarrow>
         p = Idle \<and> p' = Fetching \<and> (\<exists>now now'. ev = Call now now'))
   \<and> (\<forall>r ev. getOrScrapeData g (Returned r) ev = None)"
proof -
  have 1: "(\<exists>g' p'. getOrScrapeData g Idle (Call now now') = Some (g', p', [Fetch]))
      \<longleftrightarrow> (lastScrapeTime g = None \<or> lastScrapeTime g = Some 0
            \<or> (\<exists>t. lastScrapeTime g = Some t \<and> 1800000 < now - t))
          \<and> \<not> isScraping g"
    unfolding needsFreshData_iff[symmetric] by auto
  have 2: "getOrScrapeData g Idle (Call now now') = Some (g, Returned (Cached (cacheAge g now')), [])"
    if "lastScrapeTime g = Some t \<and> t \<noteq> 0 \<and> now - t \<le> 1800000" for t
  proof -
    from that have "\<not> needsFreshData g now" by (auto simp: needsFreshData_iff)
    then show ?thesis by simp
  qed
  have 3: "p = Idle \<and> p' = Fetching \<and> (\<exists>now now'. ev = Call now now')"
    if "getOrScrapeData g p ev = Some (g', p', effs) \<and> Fetch \<in> set effs" for p ev g' p' effs
  proof -
    from that have "getOrScrapeData g p ev = Some (g', p', effs)" and f: "Fetch \<in> set effs" by simp_all
    then show ?thesis by (elim getOrScrapeData_cases) auto
  qed
  have 4: "getOrScrapeData g (Returned r) ev = None" for r ev by simp
  from 1 2 3 4 show ?thesis by blast
qed

text \<open>
  The theorem one millisecond past the 30 minutes, where the fetch begins, and at
  exactly 30 minutes, where the cached data is served.
\<close>

theorem C7_refresh_starts_iff_stale_witness:
  "getOrScrapeData (cachedAt 1700000000000) Idle (Call 1700001800001 1700001800001)
     = Some (\<lparr>lastScrapeTime = Some 1700000000000, isScraping = True\<rparr>, Fetching, [Fetch])
   \<and> getOrScrapeData (cachedAt 1700000000000) Idle (Call 1700001800000 1700001800003)
     = Some (cachedAt 1700000000000, Returned (Cached 30), [])"
proof -
  have "\<exists>g' p'. getOrScrapeData (cachedAt 1700000000000) Idle (Call 1700001800001 1700001800001)
      = Some (g', p', [Fetch])"
    using C7_refresh_starts_iff_stale[of "cachedAt 1700000000000" 1700001800001 1700001800001]
    by (simp add: cachedAt_def)
  moreover have "getOrScrapeData (cachedAt 1700000000000) Idle (Call 1700001800000 1700001800003)
     = Some (cachedAt 1700000000000, Returned (Cached (cacheAge (cachedAt 1700000000000) 1700001800003)), [])"
    using C7_refresh_starts_iff_stale[of "cachedAt 1700000000000" 1700001800000 1700001800003]
    by (simp add: cachedAt_def)
  moreover have "cacheAge (cachedAt 1700000000000) 1700001800003 = 30"
    by (simp add: cacheAge_def cachedAt_def)
  ultimately show ?thesis
    by (auto simp: cachedAt_def needsFreshData_def CACHE_DURATION_def)
qed

text \<open>
  The claim as written has a refresh due from 30 minutes on.  At exactly 30 minutes
  \<open>needsFreshData\<close> is false, and the call returns the cached data.
\<close>

theorem C7_exactly_30_minutes_counterexample:
  "spec_refreshDue (cachedAt 1700000000000) 1700001800000
   \<and> \<not> isScraping (cachedAt 1700000000000)
   \<and> getOrScrapeData (cachedAt 1700000000000) Idle (Call 1700001800000 1700001800000)
        = Some (cachedAt 1700000000000, Returned (Cached 30), [])"
  by (simp add: spec_refreshDue_def cachedAt_def needsFreshData_def CACHE_DURATION_def
      cacheAge_def)



text \<open>
  Claim C9.  Both versions of \<open>generateMatchId\<close> give the same identifier for the two
  orders of a pair of team names, the mock scraper's when evaluated at the same time.
  The identifier of the mock scraper ends in the last six digits of \<open>Date.now()\<close>: two
  calls for one pair, a millisecond apart, give different identifiers.
\<close>

theorem C9_generateMatchId_mock_embeds_time:
  "generateMatchId a b = generateMatchId b a
   \<and> generateMatchId_mock now a b = generateMatchId_mock now b a
   \<and> generateMatchId_mock 1700000000000 ''Liverpool'' ''Arsenal''
       = ''match_arsenal_liverpool_000000''
   \<and> generateMatchId_mock 1700000000001 ''Arsenal'' ''Liverpool''
       = ''match_arsenal_liverpool_000001''"
proof (intro conjI)
  show "generateMatchId a b = generateMatchId b a" by (rule generateMatchId_sym)
  show "generateMatchId_mock now a b = generateMatchId_mock now b a"
    by (rule generateMatchId_mock_sym)
  show "generateMatchId_mock 1700000000000 ''Liverpool'' ''Arsenal''
       = ''match_arsenal_liverpool_000000''"
    by (simp add: generateMatchId_mock_def normalized_def toLowerCase_def toLowerCase_char_def
        is_space_def slice_last6_def toString.simps digit_def)
  show "generateMatchId_mock 1700000000001 ''Arsenal'' ''Liverpool''
       = ''match_arsenal_liverpool_000001''"
    by (simp add: generateMatchId_mock_def normalized_def toLowerCase_def toLowerCase_char_def
        is_space_def slice_last6_def toString.simps digit_def)
qed


end
